theory Spec2Isabelle
  imports Main
begin

section \<open>Data model (types/index.ts)\<close>

text \<open>
  A JavaScript \<open>Date\<close> is represented by its time value: the number of milliseconds
  since the epoch, an integer. Only valid dates are represented. Optional fields are
  \<open>option\<close>s. The string-literal unions of the interfaces are datatypes. A field
  name is one constant, so the fields \<open>action\<close>, \<open>title\<close>, \<open>project\<close>, \<open>id\<close> and
  \<open>details\<close> of review items and issue items carry a prefix, as do the fields of a
  calendar event, and the \<open>date\<close> of an activity payload is \<open>actDate\<close>.
\<close>

type_synonym Date = int

record Commit =
  message :: string
  project :: string
  branch :: string

datatype MRAction = mr_created | mr_reviewed | mr_approved | mr_commented | mr_closed | mr_merged

record MergeRequest =
  mr_action :: MRAction
  mr_title :: string
  mr_project :: string
  mr_id :: "int option"

datatype IssueAction =
  is_commented | is_status_changed | is_assigned | is_opened | is_closed

record Issue =
  issue_action :: IssueAction
  issue_title :: string
  issue_project :: string
  issue_id :: "int option"
  issue_details :: "string option"

record GitLabActivity =
  actDate :: Date
  commits :: "Commit list"
  mergeRequests :: "MergeRequest list"
  issues :: "Issue list"

record CalendarEvent =
  ev_title :: string
  ev_start :: Date
  ev_end :: Date
  attendees :: "int option"

record DayActivity =
  date :: Date
  meetings :: "CalendarEvent list"
  gitlabActivity :: GitLabActivity
  description :: string

text \<open>The payload with no item, for a day \<open>d\<close>.\<close>

definition emptyActivity :: "Date \<Rightarrow> GitLabActivity" where
  "emptyActivity d = \<lparr>actDate = d, commits = [], mergeRequests = [], issues = []\<rparr>"

datatype error = WriteError | ProviderError string | TypeError

section \<open>The platform's calendar and string functions\<close>

text \<open>
  The code relies on a few built-ins of the language: the civil calendar behind
  \<open>new Date(y, m, d)\<close>, \<open>getFullYear\<close>, \<open>getMonth\<close>, \<open>getDate\<close> and
  \<open>toISOString\<close>, and \<open>String\<close>, \<open>padStart\<close>, \<open>split\<close> and \<open>Number\<close> on
  day keys. They are written out here over the proleptic Gregorian calendar.
\<close>

definition msPerDay :: int where
  "msPerDay = 86400000"

definition msPerMinute :: int where
  "msPerMinute = 60000"

text \<open>\<open>MakeDay\<close>: the day number of a year, a zero-based month and a day of the month.\<close>

definition MakeDay :: "int \<Rightarrow> int \<Rightarrow> int \<Rightarrow> int" where
  "MakeDay y m d =
     (let ym = y + m div 12;
          mn = m mod 12;
          yy = (if mn < 2 then ym - 1 else ym);
          era = yy div 400;
          yoe = yy - era * 400;
          mp = (if mn < 2 then mn + 10 else mn - 2);
          doy = (153 * mp + 2) div 5;
          doe = yoe * 365 + yoe div 4 - yoe div 100 + doy
      in era * 146097 + doe - 719468 + (d - 1))"

text \<open>The civil date (year, month from 1, day of the month) of a day number.\<close>

definition civilFromDays :: "int \<Rightarrow> int \<times> int \<times> int" where
  "civilFromDays z0 =
     (let z = z0 + 719468;
          era = z div 146097;
          doe = z - era * 146097;
          yoe = (doe - doe div 1460 + doe div 36524 - doe div 146096) div 365;
          y = yoe + era * 400;
          doy = doe - (365 * yoe + yoe div 4 - yoe div 100);
          mp = (5 * doy + 2) div 153;
          d = doy - (153 * mp + 2) div 5 + 1;
          m = (if mp < 10 then mp + 3 else mp - 9)
      in (if m \<le> 2 then y + 1 else y, m, d))"

text \<open>
  The local time zone of the process is the platform's \<open>LocalTZA\<close>: the offset from
  UTC, in minutes east, in force at a time value (\<open>offsetAt\<close>, which \<open>getFullYear\<close>,
  \<open>getMonth\<close> and \<open>getDate\<close> use) and the offset in force at a local time
  (\<open>offsetOfLocal\<close>, which \<open>new Date(y, m, d)\<close> uses). \<open>fixedOffset\<close> is a zone without
  daylight saving time. \<open>europeLondon2024\<close> is the zone Europe/London during 2024: one
  hour east from 31 March, 01:00 UTC, to 27 October, 01:00 UTC; a local time that the
  change skips or repeats is read with the offset before the change.
\<close>

record TimeZone =
  offsetAt :: "int \<Rightarrow> int"
  offsetOfLocal :: "int \<Rightarrow> int"

definition fixedOffset :: "int \<Rightarrow> TimeZone" where
  "fixedOffset minutes = \<lparr>offsetAt = (\<lambda>t. minutes), offsetOfLocal = (\<lambda>t. minutes)\<rparr>"

definition europeLondon2024 :: TimeZone where
  "europeLondon2024 =
     \<lparr>offsetAt = (\<lambda>t. if 1711846800000 \<le> t \<and> t < 1729990800000 then 60 else 0),
      offsetOfLocal = (\<lambda>t. if 1711850400000 \<le> t \<and> t < 1729994400000 then 60 else 0)\<rparr>"

text \<open>
  \<open>new Date(year, monthIndex, day)\<close>: local midnight of that civil day; a year from 0
  to 99 means 1900 + year.
\<close>

definition newDate :: "TimeZone \<Rightarrow> int \<Rightarrow> int \<Rightarrow> int \<Rightarrow> Date" where
  "newDate tz y m d =
     (let t = MakeDay (if 0 \<le> y \<and> y \<le> 99 then 1900 + y else y) m d * msPerDay
      in t - offsetOfLocal tz t * msPerMinute)"

definition utcCivil :: "Date \<Rightarrow> int \<times> int \<times> int" where
  "utcCivil t = civilFromDays (t div msPerDay)"

definition localCivil :: "TimeZone \<Rightarrow> Date \<Rightarrow> int \<times> int \<times> int" where
  "localCivil tz t = civilFromDays ((t + offsetAt tz t * msPerMinute) div msPerDay)"

definition getFullYear :: "TimeZone \<Rightarrow> Date \<Rightarrow> int" where
  "getFullYear tz t = fst (localCivil tz t)"

definition getMonth :: "TimeZone \<Rightarrow> Date \<Rightarrow> int" where
  "getMonth tz t = fst (snd (localCivil tz t)) - 1"

definition getDate :: "TimeZone \<Rightarrow> Date \<Rightarrow> int" where
  "getDate tz t = snd (snd (localCivil tz t))"

definition digitChar :: "nat \<Rightarrow> char" where
  "digitChar n = ''0123456789'' ! (n mod 10)"

fun showNat :: "nat \<Rightarrow> string" where
  "showNat n = (if n < 10 then [digitChar n] else showNat (n div 10) @ [digitChar n])"

declare showNat.simps [simp del]

text \<open>\<open>String(n)\<close> for an integer.\<close>

definition String_of :: "int \<Rightarrow> string" where
  "String_of i = (if i < 0 then CHR ''-'' # showNat (nat (- i)) else showNat (nat i))"

definition padStart :: "nat \<Rightarrow> char \<Rightarrow> string \<Rightarrow> string" where
  "padStart w c s = replicate (w - length s) c @ s"

text \<open>
  The part of \<open>toISOString()\<close> before the \<open>T\<close>: the UTC civil day, the year on four
  digits, or signed on six digits outside 0..9999.
\<close>

definition isoYear :: "int \<Rightarrow> string" where
  "isoYear y =
     (if 0 \<le> y \<and> y \<le> 9999 then padStart 4 CHR ''0'' (showNat (nat y))
      else (if y < 0 then CHR ''-'' else CHR ''+'') # padStart 6 CHR ''0'' (showNat (nat \<bar>y\<bar>)))"

definition isoDay :: "Date \<Rightarrow> string" where
  "isoDay t =
     (case utcCivil t of (y, m, d) \<Rightarrow>
        isoYear y @ ''-'' @ padStart 2 CHR ''0'' (showNat (nat m))
          @ ''-'' @ padStart 2 CHR ''0'' (showNat (nat d)))"

text \<open>\<open>s.split('-')\<close>.\<close>

fun splitDash :: "string \<Rightarrow> string list" where
  "splitDash [] = [[]]"
| "splitDash (c # cs) =
     (if c = CHR ''-'' then [] # splitDash cs
      else (case splitDash cs of [] \<Rightarrow> [[c]] | w # ws \<Rightarrow> (c # w) # ws))"

text \<open>
  \<open>Number(s)\<close> on a string of decimal digits (the empty string is 0). Day keys hold
  nothing else; on other strings the platform's conversion is not modelled.
\<close>

definition digitVal :: "char \<Rightarrow> int" where
  "digitVal c = int (of_char c) - 48"

definition Number_of :: "string \<Rightarrow> int" where
  "Number_of s = foldl (\<lambda>acc c. acc * 10 + digitVal c) 0 s"

text \<open>The strict day-key format \<open>^\d{4}-\d{2}-\d{2}$\<close>.\<close>

definition isDigit :: "char \<Rightarrow> bool" where
  "isDigit c \<longleftrightarrow> c \<in> set ''0123456789''"

definition strictDayKey :: "string \<Rightarrow> bool" where
  "strictDayKey s \<longleftrightarrow>
     length s = 10 \<and> s ! 4 = CHR ''-'' \<and> s ! 7 = CHR ''-'' \<and>
     list_all isDigit (take 4 s) \<and> list_all isDigit (take 2 (drop 5 s)) \<and>
     list_all isDigit (drop 8 s)"

text \<open>
  \<open>const [year, month, day] = dateStr.split('-').map(Number);
  const date = new Date(year, month - 1, day)\<close>, as every per-day fetch helper starts.
  On a string with fewer than three fields the missing numbers are \<open>NaN\<close> and the date
  is invalid; that case is outside this model (the fields read as 0).
\<close>

definition parseDateStr :: "TimeZone \<Rightarrow> string \<Rightarrow> Date" where
  "parseDateStr tz dateStr =
     (let fs = map Number_of (splitDash dateStr);
          year = (if 0 < length fs then fs ! 0 else 0);
          month = (if 1 < length fs then fs ! 1 else 0);
          day = (if 2 < length fs then fs ! 2 else 0)
      in newDate tz year (month - 1) day)"

section \<open>The activity cache (utils/cache.ts)\<close>

record 'a CacheEntry =
  data :: 'a
  timestamp :: int
  source :: string

record CacheData =
  gitlab :: "string \<rightharpoonup> GitLabActivity CacheEntry"
  googleCalendar :: "string \<rightharpoonup> CalendarEvent list CacheEntry"
  outlookCalendar :: "string \<rightharpoonup> CalendarEvent list CacheEntry"

record CacheStats =
  gitlabHits :: nat
  gitlabMisses :: nat
  googleHits :: nat
  googleMisses :: nat
  outlookHits :: nat
  outlookMisses :: nat

text \<open>
  The object's fields, and the cache file: \<open>cacheFile\<close> is what the file holds (\<open>None\<close>
  when it does not exist), \<open>writable\<close> whether writing it succeeds.
\<close>

record ActivityCache =
  cache :: CacheData
  cacheTTL :: int
  cacheStats :: CacheStats
  cacheFile :: "CacheData option"
  writable :: bool

definition DEFAULT_CACHE_TTL :: int where
  "DEFAULT_CACHE_TTL = 3600000"

definition emptyCacheData :: CacheData where
  "emptyCacheData = \<lparr>gitlab = Map.empty, googleCalendar = Map.empty, outlookCalendar = Map.empty\<rparr>"

definition zeroStats :: CacheStats where
  "zeroStats = \<lparr>gitlabHits = 0, gitlabMisses = 0, googleHits = 0, googleMisses = 0,
                 outlookHits = 0, outlookMisses = 0\<rparr>"

definition newActivityCache :: "CacheData option \<Rightarrow> bool \<Rightarrow> ActivityCache" where
  "newActivityCache file w =
     \<lparr>cache = emptyCacheData, cacheTTL = DEFAULT_CACHE_TTL, cacheStats = zeroStats,
      cacheFile = file, writable = w\<rparr>"

definition load :: "ActivityCache \<Rightarrow> ActivityCache" where
  "load c = (case cacheFile c of Some d \<Rightarrow> c\<lparr>cache := d\<rparr> | None \<Rightarrow> c\<lparr>cache := emptyCacheData\<rparr>)"

definition save :: "ActivityCache \<Rightarrow> (error + unit) \<times> ActivityCache" where
  "save c = (if writable c then (Inr (), c\<lparr>cacheFile := Some (cache c)\<rparr>) else (Inl WriteError, c))"

definition getDateKey :: "Date \<Rightarrow> string" where
  "getDateKey d = isoDay d"

definition isExpired :: "int \<Rightarrow> ActivityCache \<Rightarrow> int \<Rightarrow> bool" where
  "isExpired now c ts \<longleftrightarrow> now - ts > cacheTTL c"

text \<open>
  The three lookups. \<open>now\<close> is the value of \<open>Date.now()\<close> at the call. Each returns the
  payload or \<open>None\<close> (\<open>null\<close>), and the cache with its counters and, for a stale entry, its
  store updated.
\<close>

definition getGitLabActivity ::
  "int \<Rightarrow> Date \<Rightarrow> ActivityCache \<Rightarrow> GitLabActivity option \<times> ActivityCache" where
  "getGitLabActivity now d c =
     (let key = getDateKey d in
      case gitlab (cache c) key of
        None \<Rightarrow>
          (None, c\<lparr>cacheStats := (cacheStats c)\<lparr>gitlabMisses := gitlabMisses (cacheStats c) + 1\<rparr>\<rparr>)
      | Some entry \<Rightarrow>
          if isExpired now c (timestamp entry)
          then (None, c\<lparr>cache := (cache c)\<lparr>gitlab := (gitlab (cache c))(key := None)\<rparr>,
                        cacheStats := (cacheStats c)\<lparr>gitlabMisses := gitlabMisses (cacheStats c) + 1\<rparr>\<rparr>)
          else (Some (data entry),
                c\<lparr>cacheStats := (cacheStats c)\<lparr>gitlabHits := gitlabHits (cacheStats c) + 1\<rparr>\<rparr>))"

definition setGitLabActivity ::
  "int \<Rightarrow> Date \<Rightarrow> GitLabActivity \<Rightarrow> ActivityCache \<Rightarrow> (error + unit) \<times> ActivityCache" where
  "setGitLabActivity now d activity c =
     (let key = getDateKey d in
      save (c\<lparr>cache := (cache c)\<lparr>gitlab := (gitlab (cache c))
              (key \<mapsto> \<lparr>data = activity, timestamp = now, source = ''gitlab''\<rparr>)\<rparr>\<rparr>))"

definition getGoogleCalendarEvents ::
  "int \<Rightarrow> Date \<Rightarrow> ActivityCache \<Rightarrow> CalendarEvent list option \<times> ActivityCache" where
  "getGoogleCalendarEvents now d c =
     (let key = getDateKey d in
      case googleCalendar (cache c) key of
        None \<Rightarrow>
          (None, c\<lparr>cacheStats := (cacheStats c)\<lparr>googleMisses := googleMisses (cacheStats c) + 1\<rparr>\<rparr>)
      | Some entry \<Rightarrow>
          if isExpired now c (timestamp entry)
          then (None, c\<lparr>cache := (cache c)\<lparr>googleCalendar := (googleCalendar (cache c))(key := None)\<rparr>,
                        cacheStats := (cacheStats c)\<lparr>googleMisses := googleMisses (cacheStats c) + 1\<rparr>\<rparr>)
          else (Some (data entry),
                c\<lparr>cacheStats := (cacheStats c)\<lparr>googleHits := googleHits (cacheStats c) + 1\<rparr>\<rparr>))"

definition setGoogleCalendarEvents ::
  "int \<Rightarrow> Date \<Rightarrow> CalendarEvent list \<Rightarrow> ActivityCache \<Rightarrow> (error + unit) \<times> ActivityCache" where
  "setGoogleCalendarEvents now d events c =
     (let key = getDateKey d in
      save (c\<lparr>cache := (cache c)\<lparr>googleCalendar := (googleCalendar (cache c))
              (key \<mapsto> \<lparr>data = events, timestamp = now, source = ''google_calendar''\<rparr>)\<rparr>\<rparr>))"

definition getOutlookCalendarEvents ::
  "int \<Rightarrow> Date \<Rightarrow> ActivityCache \<Rightarrow> CalendarEvent list option \<times> ActivityCache" where
  "getOutlookCalendarEvents now d c =
     (let key = getDateKey d in
      case outlookCalendar (cache c) key of
        None \<Rightarrow>
          (None, c\<lparr>cacheStats := (cacheStats c)\<lparr>outlookMisses := outlookMisses (cacheStats c) + 1\<rparr>\<rparr>)
      | Some entry \<Rightarrow>
          if isExpired now c (timestamp entry)
          then (None, c\<lparr>cache := (cache c)\<lparr>outlookCalendar := (outlookCalendar (cache c))(key := None)\<rparr>,
                        cacheStats := (cacheStats c)\<lparr>outlookMisses := outlookMisses (cacheStats c) + 1\<rparr>\<rparr>)
          else (Some (data entry),
                c\<lparr>cacheStats := (cacheStats c)\<lparr>outlookHits := outlookHits (cacheStats c) + 1\<rparr>\<rparr>))"

definition setOutlookCalendarEvents ::
  "int \<Rightarrow> Date \<Rightarrow> CalendarEvent list \<Rightarrow> ActivityCache \<Rightarrow> (error + unit) \<times> ActivityCache" where
  "setOutlookCalendarEvents now d events c =
     (let key = getDateKey d in
      save (c\<lparr>cache := (cache c)\<lparr>outlookCalendar := (outlookCalendar (cache c))
              (key \<mapsto> \<lparr>data = events, timestamp = now, source = ''outlook_calendar''\<rparr>)\<rparr>\<rparr>))"

definition resetStats :: "ActivityCache \<Rightarrow> ActivityCache" where
  "resetStats c = c\<lparr>cacheStats := zeroStats\<rparr>"

text \<open>
  \<open>clearAll\<close> resets the counters after the write: when the write fails, the rejection
  leaves the method before \<open>resetStats\<close>.
\<close>

definition clearAll :: "ActivityCache \<Rightarrow> (error + unit) \<times> ActivityCache" where
  "clearAll c =
     (case save (c\<lparr>cache := emptyCacheData\<rparr>) of
        (Inl e, c') \<Rightarrow> (Inl e, c')
      | (Inr u, c') \<Rightarrow> (Inr (), resetStats c'))"

definition clearGitLab :: "ActivityCache \<Rightarrow> (error + unit) \<times> ActivityCache" where
  "clearGitLab c = save (c\<lparr>cache := (cache c)\<lparr>gitlab := Map.empty\<rparr>\<rparr>)"

definition clearCalendars :: "ActivityCache \<Rightarrow> (error + unit) \<times> ActivityCache" where
  "clearCalendars c =
     save (c\<lparr>cache := (cache c)\<lparr>googleCalendar := Map.empty, outlookCalendar := Map.empty\<rparr>\<rparr>)"

text \<open>
  Each loop of \<open>clearExpired\<close> deletes the keys whose entry fails the age test; on a map
  that is a filter of the entries.
\<close>

definition dropExpired :: "int \<Rightarrow> int \<Rightarrow> (string \<rightharpoonup> 'a CacheEntry) \<Rightarrow> (string \<rightharpoonup> 'a CacheEntry)" where
  "dropExpired now ttl m =
     (\<lambda>key. case m key of None \<Rightarrow> None
                | Some entry \<Rightarrow> if now - timestamp entry > ttl then None else Some entry)"

definition clearExpired :: "int \<Rightarrow> ActivityCache \<Rightarrow> (error + unit) \<times> ActivityCache" where
  "clearExpired now c =
     save (c\<lparr>cache := (cache c)
              \<lparr>gitlab := dropExpired now (cacheTTL c) (gitlab (cache c)),
               googleCalendar := dropExpired now (cacheTTL c) (googleCalendar (cache c)),
               outlookCalendar := dropExpired now (cacheTTL c) (outlookCalendar (cache c))\<rparr>\<rparr>)"

text \<open>
  \<open>getCacheStats\<close>: the six counters with the total of hits and of requests. The
  formatted hit rate, a function of these two totals, is left out.
\<close>

definition getCacheStats :: "ActivityCache \<Rightarrow> CacheStats \<times> nat \<times> nat" where
  "getCacheStats c =
     (let s = cacheStats c;
          total = gitlabHits s + gitlabMisses s + googleHits s + googleMisses s
                    + outlookHits s + outlookMisses s;
          hits = gitlabHits s + googleHits s + outlookHits s
      in (s, hits, total))"

definition setCacheTTL :: "int \<Rightarrow> ActivityCache \<Rightarrow> ActivityCache" where
  "setCacheTTL ttl c = c\<lparr>cacheTTL := ttl\<rparr>"

subsection \<open>Reading the cache by kind\<close>

text \<open>
  The three namespaces under one name, to state properties that hold for every kind:
  \<open>entryTimestamp\<close> is the capture time of the entry stored under a key, and \<open>getFound\<close>
  runs the lookup of the kind and tells whether it returned a payload.
\<close>

datatype CacheKind = GitLabKind | GoogleCalendarKind | OutlookCalendarKind

definition entryTimestamp :: "CacheKind \<Rightarrow> CacheData \<Rightarrow> string \<Rightarrow> int option" where
  "entryTimestamp kind store key =
     (case kind of
        GitLabKind \<Rightarrow> map_option timestamp (gitlab store key)
      | GoogleCalendarKind \<Rightarrow> map_option timestamp (googleCalendar store key)
      | OutlookCalendarKind \<Rightarrow> map_option timestamp (outlookCalendar store key))"

definition getFound :: "CacheKind \<Rightarrow> int \<Rightarrow> Date \<Rightarrow> ActivityCache \<Rightarrow> bool \<times> ActivityCache" where
  "getFound kind now d c =
     (case kind of
        GitLabKind \<Rightarrow> (case getGitLabActivity now d c of (r, c') \<Rightarrow> (r \<noteq> None, c'))
      | GoogleCalendarKind \<Rightarrow> (case getGoogleCalendarEvents now d c of (r, c') \<Rightarrow> (r \<noteq> None, c'))
      | OutlookCalendarKind \<Rightarrow> (case getOutlookCalendarEvents now d c of (r, c') \<Rightarrow> (r \<noteq> None, c')))"

section \<open>The activity distributor\<close>

text \<open>
  The distributor works on a copy of the array whose elements are the caller's day
  objects, and changes these objects in place. The model is a list of day values: the
  days of an input are taken to be distinct objects, as the orchestrator builds them.
  \<open>Array.prototype.sort\<close> is stable, as \<open>sort_key\<close> is. In the summary the field
  \<open>message\<close> is \<open>message_info\<close>.
\<close>

record DistributionInfo =
  daysWithGaps :: nat
  daysDistributed :: nat
  message_info :: string

record DistributionResult =
  activities :: "DayActivity list"
  distributionInfo :: DistributionInfo

definition hasAnyActivity :: "DayActivity \<Rightarrow> bool" where
  "hasAnyActivity day \<longleftrightarrow>
     length (meetings day) > 0 \<or>
     length (commits (gitlabActivity day)) > 0 \<or>
     length (mergeRequests (gitlabActivity day)) > 0 \<or>
     length (issues (gitlabActivity day)) > 0"

text \<open>
  \<open>findNextActivityDay\<close>: the loop from \<open>startIndex + 1\<close>; \<open>None\<close> stands for the
  source's \<open>-1\<close>.
\<close>

function findNextFrom :: "DayActivity list \<Rightarrow> nat \<Rightarrow> nat option" where
  "findNextFrom acts i =
     (if i < length acts
      then (if hasAnyActivity (acts ! i) then Some i else findNextFrom acts (i + 1))
      else None)"
  by pat_completeness auto
termination
  by (relation "measure (\<lambda>(acts, i). length acts - i)") auto

declare findNextFrom.simps [simp del]

definition findNextActivityDay :: "DayActivity list \<Rightarrow> nat \<Rightarrow> nat option" where
  "findNextActivityDay acts startIndex = findNextFrom acts (startIndex + 1)"

text \<open>\<open>xs.slice(a, b)\<close> for \<open>0 \<le> a \<le> b\<close>.\<close>

definition slice :: "nat \<Rightarrow> nat \<Rightarrow> 'a list \<Rightarrow> 'a list" where
  "slice a b xs = take (b - a) (drop a xs)"

definition distributedTag :: "string \<Rightarrow> string" where
  "distributedTag s = ''[Distributed] '' @ s"

definition pushCommits :: "DayActivity \<Rightarrow> Commit list \<Rightarrow> DayActivity" where
  "pushCommits day cs =
     day\<lparr>gitlabActivity := (gitlabActivity day)
       \<lparr>commits := commits (gitlabActivity day)
          @ map (\<lambda>commit. commit\<lparr>message := distributedTag (message commit)\<rparr>) cs\<rparr>\<rparr>"

definition pushMergeRequests :: "DayActivity \<Rightarrow> MergeRequest list \<Rightarrow> DayActivity" where
  "pushMergeRequests day ms =
     day\<lparr>gitlabActivity := (gitlabActivity day)
       \<lparr>mergeRequests := mergeRequests (gitlabActivity day)
          @ map (\<lambda>mr. mr\<lparr>mr_title := distributedTag (mr_title mr)\<rparr>) ms\<rparr>\<rparr>"

definition pushIssues :: "DayActivity \<Rightarrow> Issue list \<Rightarrow> DayActivity" where
  "pushIssues day xs =
     day\<lparr>gitlabActivity := (gitlabActivity day)
       \<lparr>issues := issues (gitlabActivity day)
          @ map (\<lambda>issue. issue\<lparr>issue_title := distributedTag (issue_title issue)\<rparr>) xs\<rparr>\<rparr>"

text \<open>
  The three loops of \<open>distributeWorkAcrossGap\<close> have one shape; \<open>distributeLoop\<close> is
  that loop, for the item list \<open>sel\<close> of the source day and the push \<open>push\<close> of tagged
  copies onto day \<open>i\<close>. It returns the days and the final item index.
\<close>

function distributeLoop ::
  "(GitLabActivity \<Rightarrow> 'a list) \<Rightarrow> (DayActivity \<Rightarrow> 'a list \<Rightarrow> DayActivity) \<Rightarrow> nat \<Rightarrow> nat
     \<Rightarrow> nat \<Rightarrow> nat \<Rightarrow> DayActivity list \<Rightarrow> DayActivity list \<times> nat" where
  "distributeLoop sel push activityIndex perDay i idx acts =
     (if i < activityIndex
      then (let src = sel (gitlabActivity (acts ! activityIndex));
                toAdd = min perDay (length src - idx)
            in if toAdd > 0
               then distributeLoop sel push activityIndex perDay (i + 1) (idx + toAdd)
                      (acts[i := push (acts ! i) (slice idx (idx + toAdd) src)])
               else distributeLoop sel push activityIndex perDay (i + 1) idx acts)
      else (acts, idx))"
  by pat_completeness auto
termination
  by (relation "measure (\<lambda>(sel, push, activityIndex, perDay, i, idx, acts). activityIndex - i)") auto

declare distributeLoop.simps [simp del]

definition distributionNote :: "nat \<Rightarrow> Commit" where
  "distributionNote gapSize =
     \<lparr>message = ''[Note: Some activities from this day were distributed to previous ''
                  @ showNat gapSize @ '' day(s) without recorded work]'',
      project = ''System'', branch = ''distribution''\<rparr>"

definition unshiftCommit :: "Commit \<Rightarrow> DayActivity \<Rightarrow> DayActivity" where
  "unshiftCommit c day =
     day\<lparr>gitlabActivity := (gitlabActivity day)\<lparr>commits := c # commits (gitlabActivity day)\<rparr>\<rparr>"

definition distributeWorkAcrossGap ::
  "DayActivity list \<Rightarrow> nat \<Rightarrow> nat \<Rightarrow> nat \<Rightarrow> DayActivity list" where
  "distributeWorkAcrossGap acts gapStart activityIndex gapSize =
     (let sourceActivity = gitlabActivity (acts ! activityIndex);
          commitsPerDay = length (commits sourceActivity) div (gapSize + 1);
          mrsPerDay = length (mergeRequests sourceActivity) div (gapSize + 1);
          issuesPerDay = length (issues sourceActivity) div (gapSize + 1);
          (acts1, commitIndex) =
             distributeLoop commits pushCommits activityIndex commitsPerDay gapStart 0 acts;
          (acts2, mrIndex) =
             distributeLoop mergeRequests pushMergeRequests activityIndex mrsPerDay gapStart 0 acts1;
          (acts3, issueIndex) =
             distributeLoop issues pushIssues activityIndex issuesPerDay gapStart 0 acts2
      in if commitIndex > 0 \<or> mrIndex > 0 \<or> issueIndex > 0
         then acts3[activityIndex := unshiftCommit (distributionNote gapSize) (acts3 ! activityIndex)]
         else acts3)"

text \<open>
  The scan of \<open>distributeActivities\<close>: the \<open>for\<close> loop from index \<open>i\<close>, with the
  two counters. The index goes up by one in every iteration.
\<close>

function distributeScan ::
  "DayActivity list \<Rightarrow> nat \<Rightarrow> nat \<Rightarrow> nat \<Rightarrow> DayActivity list \<times> nat \<times> nat" where
  "distributeScan distributed i gapDays distributedDays =
     (if i < length distributed
      then (if \<not> hasAnyActivity (distributed ! i)
            then (case findNextActivityDay distributed i of
                    Some nextActivityIndex \<Rightarrow>
                      (let gapSize = nextActivityIndex - i
                       in distributeScan
                            (distributeWorkAcrossGap distributed i nextActivityIndex gapSize)
                            (i + 1) (gapDays + gapSize) (distributedDays + 1))
                  | None \<Rightarrow> distributeScan distributed (i + 1) gapDays distributedDays)
            else distributeScan distributed (i + 1) gapDays distributedDays)
      else (distributed, gapDays, distributedDays))"
  by pat_completeness auto
termination
proof (relation "measure (\<lambda>(distributed, i, gapDays, distributedDays). length distributed - i)")
  have len: "length (fst (distributeLoop sel push j p k idx acts)) = length acts"
    for sel :: "GitLabActivity \<Rightarrow> 'a list" and push j p k idx acts
  proof (induction sel push j p k idx acts rule: distributeLoop.induct)
    case (1 sel push j p k idx acts)
    then show ?case
      by (subst distributeLoop.simps) (simp add: Let_def)
  qed
  have "length (distributeWorkAcrossGap acts a b g) = length acts" for acts a b g
    using len [of commits pushCommits] len [of mergeRequests pushMergeRequests]
      len [of issues pushIssues]
    by (simp add: distributeWorkAcrossGap_def Let_def split: prod.splits)
       (metis fst_conv)
  then show "\<And>distributed i gapDays distributedDays x2 x.
       i < length distributed \<Longrightarrow> \<not> hasAnyActivity (distributed ! i) \<Longrightarrow>
       findNextActivityDay distributed i = Some x2 \<Longrightarrow> x = x2 - i \<Longrightarrow>
         ((distributeWorkAcrossGap distributed i x2 x, i + 1, gapDays + x, distributedDays + 1),
          distributed, i, gapDays, distributedDays)
         \<in> measure (\<lambda>(distributed, i, gapDays, distributedDays). length distributed - i)"
    by simp
qed auto

declare distributeScan.simps [simp del]

definition distributedMessage :: "nat \<Rightarrow> string" where
  "distributedMessage gapDays =
     ''Note: '' @ showNat gapDays @ '' day(s) had no recorded activity. Work from subsequent days was distributed proportionally. Distributed entries are marked with [Distributed].''"

definition distributeActivities :: "DayActivity list \<Rightarrow> DistributionResult" where
  "distributeActivities acts =
     (let distributed = sort_key date acts;
          (distributed', gapDays, distributedDays) = distributeScan distributed 0 0 0;
          msg = (if distributedDays > 0 then distributedMessage gapDays else [])
      in \<lparr>activities = distributed',
          distributionInfo =
            \<lparr>daysWithGaps = gapDays, daysDistributed = distributedDays, message_info = msg\<rparr>\<rparr>)"

subsection \<open>Phased distribution\<close>

text \<open>\<open>s.substring(0, 50)\<close> is \<open>take 50\<close>; \<open>parts.join(', ')\<close> is \<open>joinComma\<close>.\<close>

fun joinComma :: "string list \<Rightarrow> string" where
  "joinComma [] = []"
| "joinComma [p] = p"
| "joinComma (p # q # ps) = p @ '', '' @ joinComma (q # ps)"

definition summarizeWork :: "DayActivity \<Rightarrow> string" where
  "summarizeWork activity =
     (let parts0 = (if length (commits (gitlabActivity activity)) > 0
                    then [take 50 (message (commits (gitlabActivity activity) ! 0))] else []);
          parts1 = parts0 @ (if length (mergeRequests (gitlabActivity activity)) > 0
                    then [take 50 (mr_title (mergeRequests (gitlabActivity activity) ! 0))] else []);
          parts2 = parts1 @ (if length (issues (gitlabActivity activity)) > 0
                    then [take 50 (issue_title (issues (gitlabActivity activity) ! 0))] else []);
          joined = joinComma parts2
      in if joined = [] then ''project work'' else joined)"

definition phaseNames :: "string list" where
  "phaseNames = [''Planning'', ''Research'', ''Design'', ''Implementation'', ''Testing'',
                 ''Refinement'', ''Documentation'']"

definition generateWorkPhases :: "nat \<Rightarrow> DayActivity \<Rightarrow> string list" where
  "generateWorkPhases gapSize sourceActivity =
     (let workSummary = summarizeWork sourceActivity in
      if gapSize = 1 then
        [''[Phase: Research & Planning] Preparation for: '' @ workSummary]
      else if gapSize = 2 then
        [''[Phase: Analysis] Initial work on: '' @ workSummary,
         ''[Phase: Development] Continued work on: '' @ workSummary]
      else if gapSize = 3 then
        [''[Phase: Planning] Planned work for: '' @ workSummary,
         ''[Phase: Implementation] Developed features for: '' @ workSummary,
         ''[Phase: Testing] Testing and refinement for: '' @ workSummary]
      else
        map (\<lambda>i. ''[Phase: '' @ phaseNames ! (i mod length phaseNames) @ ''] Work on: '' @ workSummary)
          [0..<gapSize])"

definition pushPhase :: "string \<Rightarrow> DayActivity \<Rightarrow> DayActivity" where
  "pushPhase phase day =
     day\<lparr>gitlabActivity := (gitlabActivity day)
       \<lparr>commits := commits (gitlabActivity day)
          @ [\<lparr>message = phase, project = ''Distributed Work'', branch = ''phase-distribution''\<rparr>]\<rparr>\<rparr>"

text \<open>The loop of \<open>distributeWorkPhases\<close>, from phase index \<open>i\<close>.\<close>

function phasesLoop ::
  "string list \<Rightarrow> nat \<Rightarrow> nat \<Rightarrow> nat \<Rightarrow> DayActivity list \<Rightarrow> DayActivity list" where
  "phasesLoop phases gapStart activityIndex i acts =
     (if i < length phases \<and> gapStart + i < activityIndex
      then phasesLoop phases gapStart activityIndex (i + 1)
             (acts[gapStart + i := pushPhase (phases ! i) (acts ! (gapStart + i))])
      else acts)"
  by pat_completeness auto
termination
  by (relation "measure (\<lambda>(phases, gapStart, activityIndex, i, acts). length phases - i)") auto

declare phasesLoop.simps [simp del]

definition distributeWorkPhases ::
  "DayActivity list \<Rightarrow> nat \<Rightarrow> nat \<Rightarrow> nat \<Rightarrow> DayActivity \<Rightarrow> DayActivity list" where
  "distributeWorkPhases acts gapStart activityIndex gapSize sourceActivity =
     phasesLoop (generateWorkPhases gapSize sourceActivity) gapStart activityIndex 0 acts"

function intelligentScan ::
  "DayActivity list \<Rightarrow> nat \<Rightarrow> nat \<Rightarrow> nat \<Rightarrow> DayActivity list \<times> nat \<times> nat" where
  "intelligentScan distributed i gapDays distributedDays =
     (if i < length distributed
      then (if \<not> hasAnyActivity (distributed ! i)
            then (case findNextActivityDay distributed i of
                    Some nextActivityIndex \<Rightarrow>
                      (let gapSize = nextActivityIndex - i;
                           nextActivity = distributed ! nextActivityIndex
                       in intelligentScan
                            (distributeWorkPhases distributed i nextActivityIndex gapSize nextActivity)
                            (i + 1) (gapDays + gapSize) (distributedDays + 1))
                  | None \<Rightarrow> intelligentScan distributed (i + 1) gapDays distributedDays)
            else intelligentScan distributed (i + 1) gapDays distributedDays)
      else (distributed, gapDays, distributedDays))"
  by pat_completeness auto
termination
proof (relation "measure (\<lambda>(distributed, i, gapDays, distributedDays). length distributed - i)")
  have len: "length (phasesLoop phases a b k acts) = length acts" for phases a b k acts
  proof (induction phases a b k acts rule: phasesLoop.induct)
    case (1 phases a b k acts)
    then show ?case
      by (subst phasesLoop.simps) simp
  qed
  show "\<And>distributed i gapDays distributedDays x2 x xa.
       i < length distributed \<Longrightarrow> \<not> hasAnyActivity (distributed ! i) \<Longrightarrow>
       findNextActivityDay distributed i = Some x2 \<Longrightarrow> x = x2 - i \<Longrightarrow> xa = distributed ! x2 \<Longrightarrow>
         ((distributeWorkPhases distributed i x2 x xa, i + 1, gapDays + x, distributedDays + 1),
          distributed, i, gapDays, distributedDays)
         \<in> measure (\<lambda>(distributed, i, gapDays, distributedDays). length distributed - i)"
    by (simp add: distributeWorkPhases_def len)
qed auto

declare intelligentScan.simps [simp del]

definition phasedMessage :: "nat \<Rightarrow> string" where
  "phasedMessage gapDays =
     ''Note: '' @ showNat gapDays @ '' day(s) had no recorded activity. Work phases were inferred and distributed. Entries are marked with [Phase: X].''"

definition distributeActivitiesIntelligent :: "DayActivity list \<Rightarrow> DistributionResult" where
  "distributeActivitiesIntelligent acts =
     (let distributed = sort_key date acts;
          (distributed', gapDays, distributedDays) = intelligentScan distributed 0 0 0;
          msg = (if distributedDays > 0 then phasedMessage gapDays else [])
      in \<lparr>activities = distributed',
          distributionInfo =
            \<lparr>daysWithGaps = gapDays, daysDistributed = distributedDays, message_info = msg\<rparr>\<rparr>)"

subsection \<open>Gaps\<close>

text \<open>
  A list of days has a gap when some day without activity is followed, anywhere later,
  by a day with activity. \<open>noGapFrom i\<close> says that no such pair starts at index \<open>i\<close> or
  later.
\<close>

fun gapExists :: "DayActivity list \<Rightarrow> bool" where
  "gapExists [] = False"
| "gapExists (day # days) =
     ((\<not> hasAnyActivity day \<and> list_ex hasAnyActivity days) \<or> gapExists days)"

definition noGapFrom :: "nat \<Rightarrow> DayActivity list \<Rightarrow> bool" where
  "noGapFrom i acts \<longleftrightarrow>
     (\<forall>k m. i \<le> k \<and> k < m \<and> m < length acts \<and> \<not> hasAnyActivity (acts ! k)
        \<longrightarrow> \<not> hasAnyActivity (acts ! m))"

definition noInfo :: DistributionInfo where
  "noInfo = \<lparr>daysWithGaps = 0, daysDistributed = 0, message_info = []\<rparr>"

section \<open>The fetch orchestrator\<close>

text \<open>
  The server holds the cache and the four provider adapters. The adapters are the
  environment: \<open>Providers\<close> gives, for each day key, the outcome of the adapter's call,
  \<open>Inl\<close> when it rejects. \<open>tz\<close> is the local time zone and \<open>now\<close> the clock during
  one call. The lines written by \<open>sendProgress\<close> and \<open>console.error\<close> are collected
  in \<open>progressLog\<close>, the texts abstracted to constructors; \<open>sendProgress\<close> itself never
  raises.
\<close>

datatype Source = GitLab | GitHub | GoogleCalendar | OutlookCalendar

datatype Progress =
    FromCache Source string
  | Fetching Source string
  | FetchedActivity Source string nat nat
  | FetchedEvents Source string nat
  | FetchFailed Source string
  | FetchingFrom "Source list" string
  | TaskFailed Source string

record Providers =
  gitlab_getActivityForDate :: "string \<Rightarrow> error + GitLabActivity"
  github_getActivityForDate :: "string \<Rightarrow> error + GitLabActivity"
  googleCalendar_getEventsForDate :: "string \<Rightarrow> error + CalendarEvent list"
  outlookCalendar_getEventsForDate :: "string \<Rightarrow> error + CalendarEvent list"

record Server =
  activityCache :: ActivityCache
  progressLog :: "Progress list"

definition sendProgress :: "Progress \<Rightarrow> Server \<Rightarrow> Server" where
  "sendProgress m s = s\<lparr>progressLog := progressLog s @ [m]\<rparr>"

definition mergeGitActivities :: "GitLabActivity \<Rightarrow> GitLabActivity \<Rightarrow> GitLabActivity" where
  "mergeGitActivities gitlabAct githubAct =
     \<lparr>actDate = actDate gitlabAct,
      commits = commits gitlabAct @ commits githubAct,
      mergeRequests = mergeRequests gitlabAct @ mergeRequests githubAct,
      issues = issues gitlabAct @ issues githubAct\<rparr>"

text \<open>
  \<open>fetchGitLabActivityWithCache\<close> and \<open>fetchGitHubActivityWithCache\<close> are the same code
  for two adapters, and both use the GitLab namespace of the cache. Each runs up to its
  first \<open>await\<close> when it is called: \<open>lookupGitActivity\<close> is that part (the cache lookup and
  the first progress line), \<open>resumeGitActivity\<close> the rest (the adapter's call, the cache
  write and the last line). A call on its own is one after the other.
\<close>

definition lookupGitActivity ::
  "Source \<Rightarrow> TimeZone \<Rightarrow> int \<Rightarrow> string \<Rightarrow> bool \<Rightarrow> Server \<Rightarrow> GitLabActivity option \<times> Server" where
  "lookupGitActivity src tz now dateStr forceRefresh s =
     (let d = parseDateStr tz dateStr in
      if \<not> forceRefresh
      then (case getGitLabActivity now d (activityCache s) of
              (Some cached, c') \<Rightarrow>
                (Some cached, sendProgress (FromCache src dateStr) (s\<lparr>activityCache := c'\<rparr>))
            | (None, c') \<Rightarrow>
                (None, sendProgress (Fetching src dateStr) (s\<lparr>activityCache := c'\<rparr>)))
      else (None, sendProgress (Fetching src dateStr) s))"

definition resumeGitActivity ::
  "Source \<Rightarrow> (string \<Rightarrow> error + GitLabActivity) \<Rightarrow> TimeZone \<Rightarrow> int \<Rightarrow> string
     \<Rightarrow> GitLabActivity option \<Rightarrow> Server \<Rightarrow> (error + GitLabActivity \<times> bool) \<times> Server" where
  "resumeGitActivity src getActivityForDate tz now dateStr cached s =
     (case cached of
        Some a \<Rightarrow> (Inr (a, True), s)
      | None \<Rightarrow>
          (case getActivityForDate dateStr of
             Inl e \<Rightarrow> (Inl e, s)
           | Inr act \<Rightarrow>
               (case setGitLabActivity now (parseDateStr tz dateStr) act (activityCache s) of
                  (Inl e, c') \<Rightarrow> (Inl e, s\<lparr>activityCache := c'\<rparr>)
                | (Inr u, c') \<Rightarrow>
                    (Inr (act, False),
                     sendProgress
                       (FetchedActivity src dateStr (length (commits act)) (length (mergeRequests act)))
                       (s\<lparr>activityCache := c'\<rparr>)))))"

definition fetchGitLabActivityWithCache ::
  "Providers \<Rightarrow> TimeZone \<Rightarrow> int \<Rightarrow> string \<Rightarrow> bool \<Rightarrow> Server
     \<Rightarrow> (error + GitLabActivity \<times> bool) \<times> Server" where
  "fetchGitLabActivityWithCache env tz now dateStr forceRefresh s =
     (case lookupGitActivity GitLab tz now dateStr forceRefresh s of
        (cached, s') \<Rightarrow>
          resumeGitActivity GitLab (gitlab_getActivityForDate env) tz now dateStr cached s')"

definition fetchGitHubActivityWithCache ::
  "Providers \<Rightarrow> TimeZone \<Rightarrow> int \<Rightarrow> string \<Rightarrow> bool \<Rightarrow> Server
     \<Rightarrow> (error + GitLabActivity \<times> bool) \<times> Server" where
  "fetchGitHubActivityWithCache env tz now dateStr forceRefresh s =
     (case lookupGitActivity GitHub tz now dateStr forceRefresh s of
        (cached, s') \<Rightarrow>
          resumeGitActivity GitHub (github_getActivityForDate env) tz now dateStr cached s')"

text \<open>
  The two \<open>try\<close> blocks of \<open>fetchCalendarEventsWithCache\<close>. \<open>current\<close> is the variable
  \<open>meetings\<close> as it stands before the block; a rejected call leaves it as it is, and a cache write
  that fails comes after the assignment.
\<close>

definition tryGoogleCalendar ::
  "Providers \<Rightarrow> int \<Rightarrow> Date \<Rightarrow> string \<Rightarrow> CalendarEvent list \<Rightarrow> Server
     \<Rightarrow> CalendarEvent list \<times> Server" where
  "tryGoogleCalendar env now d dateStr current s =
     (let s1 = sendProgress (Fetching GoogleCalendar dateStr) s in
      case googleCalendar_getEventsForDate env dateStr of
        Inl e \<Rightarrow> (current, sendProgress (FetchFailed GoogleCalendar dateStr) s1)
      | Inr evs \<Rightarrow>
          (case setGoogleCalendarEvents now d evs (activityCache s1) of
             (Inl e, c') \<Rightarrow>
               (evs, sendProgress (FetchFailed GoogleCalendar dateStr) (s1\<lparr>activityCache := c'\<rparr>))
           | (Inr u, c') \<Rightarrow>
               (evs, sendProgress (FetchedEvents GoogleCalendar dateStr (length evs))
                       (s1\<lparr>activityCache := c'\<rparr>))))"

definition tryOutlookCalendar ::
  "Providers \<Rightarrow> int \<Rightarrow> Date \<Rightarrow> string \<Rightarrow> CalendarEvent list \<Rightarrow> Server
     \<Rightarrow> CalendarEvent list \<times> Server" where
  "tryOutlookCalendar env now d dateStr current s =
     (let s1 = sendProgress (Fetching OutlookCalendar dateStr) s in
      case outlookCalendar_getEventsForDate env dateStr of
        Inl e \<Rightarrow> (current, sendProgress (FetchFailed OutlookCalendar dateStr) s1)
      | Inr evs \<Rightarrow>
          (case setOutlookCalendarEvents now d evs (activityCache s1) of
             (Inl e, c') \<Rightarrow>
               (evs, sendProgress (FetchFailed OutlookCalendar dateStr) (s1\<lparr>activityCache := c'\<rparr>))
           | (Inr u, c') \<Rightarrow>
               (evs, sendProgress (FetchedEvents OutlookCalendar dateStr (length evs))
                       (s1\<lparr>activityCache := c'\<rparr>))))"

text \<open>
  \<open>if (cached)\<close> tests a list or \<open>null\<close>: every list, the empty one too, is truthy, so
  the test is \<open>cached \<noteq> None\<close>.
\<close>

definition outlookBlock ::
  "Providers \<Rightarrow> int \<Rightarrow> Date \<Rightarrow> string \<Rightarrow> bool \<Rightarrow> CalendarEvent list \<Rightarrow> Server
     \<Rightarrow> (error + CalendarEvent list \<times> bool) \<times> Server" where
  "outlookBlock env now d dateStr forceRefresh current s =
     (case (if \<not> forceRefresh
            then (case getOutlookCalendarEvents now d (activityCache s) of
                    (r, c') \<Rightarrow> (r, s\<lparr>activityCache := c'\<rparr>))
            else (None, s)) of
        (Some cached, s1) \<Rightarrow>
          (Inr (cached, True), sendProgress (FromCache OutlookCalendar dateStr) s1)
      | (None, s1) \<Rightarrow>
          (case tryOutlookCalendar env now d dateStr current s1 of
             (found, s2) \<Rightarrow> (Inr (found, False), s2)))"

definition fetchCalendarEventsWithCache ::
  "Providers \<Rightarrow> TimeZone \<Rightarrow> int \<Rightarrow> string \<Rightarrow> bool \<Rightarrow> bool \<Rightarrow> bool \<Rightarrow> Server
     \<Rightarrow> (error + CalendarEvent list \<times> bool) \<times> Server" where
  "fetchCalendarEventsWithCache env tz now dateStr googleAuthenticated outlookAuthenticated
       forceRefresh s =
     (let d = parseDateStr tz dateStr in
      case (if googleAuthenticated \<and> \<not> forceRefresh
            then (case getGoogleCalendarEvents now d (activityCache s) of
                    (r, c') \<Rightarrow> (r, s\<lparr>activityCache := c'\<rparr>))
            else (None, s)) of
        (Some cached, s1) \<Rightarrow>
          (Inr (cached, True), sendProgress (FromCache GoogleCalendar dateStr) s1)
      | (None, s1) \<Rightarrow>
          (case (if googleAuthenticated then tryGoogleCalendar env now d dateStr [] s1
                 else ([], s1)) of
             (current, s2) \<Rightarrow>
               if length current = 0 \<and> outlookAuthenticated
               then outlookBlock env now d dateStr forceRefresh current s2
               else (Inr (current, False), s2)))"

subsection \<open>Tasks\<close>

text \<open>
  A call of an \<open>async\<close> function runs the function up to its first \<open>await\<close> and
  gives a promise; every later resumption runs it up to its next \<open>await\<close>, and between
  two resumptions other tasks run. A task is that promise: settled with the outcome of
  the function (\<open>Inl\<close> when it is rejected), or pending with the code of its next
  resumption, which gives the task as it stands at the following \<open>await\<close> and the
  server as it leaves it. The call itself gives the task and the server after the part
  that runs at once.

  \<open>await this.sendProgress(m)\<close> writes its line at the call and lets the caller go on at
  a later resumption; \<open>rest\<close> is the caller's code after it. The call of an adapter and
  the write of the cache file are awaited in the same way: the outcome of the adapter
  and of the write is known at the resumption that follows.
\<close>

datatype 'r Task = Settled 'r | Pending "Server \<Rightarrow> 'r Task \<times> Server"

definition awaitProgress ::
  "Progress \<Rightarrow> (Server \<Rightarrow> 'r Task \<times> Server) \<Rightarrow> Server \<Rightarrow> 'r Task \<times> Server" where
  "awaitProgress m rest s = (Pending rest, sendProgress m s)"

text \<open>One resumption of a task; a settled task stays as it is.\<close>

definition resumeTask :: "'r Task \<Rightarrow> Server \<Rightarrow> 'r Task \<times> Server" where
  "resumeTask t s = (case t of Settled r \<Rightarrow> (t, s) | Pending rest \<Rightarrow> rest s)"

text \<open>
  A task resumed until it is settled, with no other task in between, as a call awaited
  on its own runs: \<open>complete (Pending rest) s\<close> is \<open>complete\<close> of the task and server
  that \<open>rest s\<close> gives.
\<close>

primrec complete :: "'r Task \<Rightarrow> Server \<Rightarrow> 'r \<times> Server" where
  "complete (Settled r) s = (r, s)"
| "complete (Pending rest) s = (case map_prod complete id (rest s) of (run, s') \<Rightarrow> run s')"

text \<open>
  \<open>fetchGitLabActivityWithCache\<close> and \<open>fetchGitHubActivityWithCache\<close> as tasks. The part
  that runs at the call is \<open>lookupGitActivity\<close>: the cache lookup and the first progress
  line. After a miss the resumptions are: the call of the adapter; its outcome and the
  cache write; the outcome of the write and the last progress line; the return.
\<close>

definition gitActivityTask ::
  "Source \<Rightarrow> (string \<Rightarrow> error + GitLabActivity) \<Rightarrow> TimeZone \<Rightarrow> int \<Rightarrow> string \<Rightarrow> bool \<Rightarrow> Server
     \<Rightarrow> (error + GitLabActivity \<times> bool) Task \<times> Server" where
  "gitActivityTask src getActivityForDate tz now dateStr forceRefresh s =
     (case lookupGitActivity src tz now dateStr forceRefresh s of
        (Some cached, s1) \<Rightarrow> (Pending (\<lambda>s. (Settled (Inr (cached, True)), s)), s1)
      | (None, s1) \<Rightarrow>
          (Pending (\<lambda>s.
             (Pending (\<lambda>s.
                case getActivityForDate dateStr of
                  Inl e \<Rightarrow> (Settled (Inl e), s)
                | Inr act \<Rightarrow>
                    (case setGitLabActivity now (parseDateStr tz dateStr) act (activityCache s) of
                       (written, c') \<Rightarrow>
                         (Pending (\<lambda>s.
                            case written of
                              Inl e \<Rightarrow> (Settled (Inl e), s)
                            | Inr u \<Rightarrow>
                                awaitProgress
                                  (FetchedActivity src dateStr (length (commits act))
                                     (length (mergeRequests act)))
                                  (\<lambda>s. (Settled (Inr (act, False)), s)) s),
                          s\<lparr>activityCache := c'\<rparr>))),
              s)),
           s1))"

text \<open>
  \<open>fetchCalendarEventsWithCache\<close> as a task. \<open>outlookEventsTask\<close> is the function from
  the comment \<open>If no Google meetings, try Outlook\<close> to its end: it runs at the call when
  Google is not enabled, and otherwise in the resumption that follows the last progress
  line of the Google block, with \<open>current\<close> the variable \<open>meetings\<close> as that block leaves
  it.
\<close>

definition outlookEventsTask ::
  "Providers \<Rightarrow> int \<Rightarrow> Date \<Rightarrow> string \<Rightarrow> bool \<Rightarrow> bool \<Rightarrow> CalendarEvent list \<Rightarrow> Server
     \<Rightarrow> (error + CalendarEvent list \<times> bool) Task \<times> Server" where
  "outlookEventsTask env now d dateStr outlookAuthenticated forceRefresh current s =
     (if length current = 0 \<and> outlookAuthenticated
      then (case (if \<not> forceRefresh
                  then (case getOutlookCalendarEvents now d (activityCache s) of
                          (r, c') \<Rightarrow> (r, s\<lparr>activityCache := c'\<rparr>))
                  else (None, s)) of
              (Some cached, s1) \<Rightarrow>
                awaitProgress (FromCache OutlookCalendar dateStr)
                  (\<lambda>s. (Settled (Inr (cached, True)), s)) s1
            | (None, s1) \<Rightarrow>
                awaitProgress (Fetching OutlookCalendar dateStr)
                  (\<lambda>s.
                     (Pending (\<lambda>s.
                        case outlookCalendar_getEventsForDate env dateStr of
                          Inl e \<Rightarrow>
                            awaitProgress (FetchFailed OutlookCalendar dateStr)
                              (\<lambda>s. (Settled (Inr (current, False)), s)) s
                        | Inr evs \<Rightarrow>
                            (case setOutlookCalendarEvents now d evs (activityCache s) of
                               (written, c') \<Rightarrow>
                                 (Pending (\<lambda>s.
                                    case written of
                                      Inl e \<Rightarrow>
                                        awaitProgress (FetchFailed OutlookCalendar dateStr)
                                          (\<lambda>s. (Settled (Inr (evs, False)), s)) s
                                    | Inr u \<Rightarrow>
                                        awaitProgress
                                          (FetchedEvents OutlookCalendar dateStr (length evs))
                                          (\<lambda>s. (Settled (Inr (evs, False)), s)) s),
                                  s\<lparr>activityCache := c'\<rparr>))),
                      s))
                  s1)
      else (Settled (Inr (current, False)), s))"

definition calendarEventsTask ::
  "Providers \<Rightarrow> TimeZone \<Rightarrow> int \<Rightarrow> string \<Rightarrow> bool \<Rightarrow> bool \<Rightarrow> bool \<Rightarrow> Server
     \<Rightarrow> (error + CalendarEvent list \<times> bool) Task \<times> Server" where
  "calendarEventsTask env tz now dateStr googleAuthenticated outlookAuthenticated forceRefresh s =
     (let d = parseDateStr tz dateStr in
      if googleAuthenticated
      then (case (if \<not> forceRefresh
                  then (case getGoogleCalendarEvents now d (activityCache s) of
                          (r, c') \<Rightarrow> (r, s\<lparr>activityCache := c'\<rparr>))
                  else (None, s)) of
              (Some cached, s1) \<Rightarrow>
                awaitProgress (FromCache GoogleCalendar dateStr)
                  (\<lambda>s. (Settled (Inr (cached, True)), s)) s1
            | (None, s1) \<Rightarrow>
                awaitProgress (Fetching GoogleCalendar dateStr)
                  (\<lambda>s.
                     (Pending (\<lambda>s.
                        case googleCalendar_getEventsForDate env dateStr of
                          Inl e \<Rightarrow>
                            awaitProgress (FetchFailed GoogleCalendar dateStr)
                              (outlookEventsTask env now d dateStr outlookAuthenticated
                                 forceRefresh [])
                              s
                        | Inr evs \<Rightarrow>
                            (case setGoogleCalendarEvents now d evs (activityCache s) of
                               (written, c') \<Rightarrow>
                                 (Pending (\<lambda>s.
                                    case written of
                                      Inl e \<Rightarrow>
                                        awaitProgress (FetchFailed GoogleCalendar dateStr)
                                          (outlookEventsTask env now d dateStr
                                             outlookAuthenticated forceRefresh evs)
                                          s
                                    | Inr u \<Rightarrow>
                                        awaitProgress
                                          (FetchedEvents GoogleCalendar dateStr (length evs))
                                          (outlookEventsTask env now d dateStr
                                             outlookAuthenticated forceRefresh evs)
                                          s),
                                  s\<lparr>activityCache := c'\<rparr>))),
                      s))
                  s1)
      else outlookEventsTask env now d dateStr outlookAuthenticated forceRefresh [] s)"

subsection \<open>The days of a request\<close>

record DayCacheInfo =
  gitlab_info :: bool
  github_info :: bool
  calendar_info :: bool

record DayResult =
  activity :: DayActivity
  cacheInfo :: DayCacheInfo

text \<open>
  \<open>fetchDayActivityParallel\<close> calls the three functions, which gives their tasks, and
  awaits \<open>Promise.allSettled\<close> of them. \<open>DayTasks\<close> is the day at that \<open>await\<close>: its
  day key, the three tasks (\<open>None\<close> is the \<open>Promise.resolve(null)\<close> of a provider that
  is not enabled) and, once the function has resumed and returned, its result.
\<close>

record DayTasks =
  dayStr :: string
  gitlabTask :: "(error + GitLabActivity \<times> bool) Task option"
  githubTask :: "(error + GitLabActivity \<times> bool) Task option"
  calendarTask :: "(error + CalendarEvent list \<times> bool) Task"
  dayResult :: "DayResult option"

definition fetchDayActivityParallel ::
  "Providers \<Rightarrow> TimeZone \<Rightarrow> int \<Rightarrow> string \<Rightarrow> bool \<Rightarrow> bool \<Rightarrow> bool \<Rightarrow> bool \<Rightarrow> bool \<Rightarrow> Server
     \<Rightarrow> DayTasks \<times> Server" where
  "fetchDayActivityParallel env tz now dateStr gitlabAuthenticated githubAuthenticated
       googleAuthenticated outlookAuthenticated forceRefresh s =
     (let (gitlabPromise, s1) =
             (if gitlabAuthenticated
              then (case gitActivityTask GitLab (gitlab_getActivityForDate env) tz now dateStr
                           forceRefresh s of
                      (t, s') \<Rightarrow> (Some t, s'))
              else (None, s));
          (githubPromise, s2) =
             (if githubAuthenticated
              then (case gitActivityTask GitHub (github_getActivityForDate env) tz now dateStr
                           forceRefresh s1 of
                      (t, s') \<Rightarrow> (Some t, s'))
              else (None, s1));
          (calendarPromise, s3) =
             calendarEventsTask env tz now dateStr googleAuthenticated outlookAuthenticated
               forceRefresh s2
      in (\<lparr>dayStr = dateStr, gitlabTask = gitlabPromise, githubTask = githubPromise,
           calendarTask = calendarPromise, dayResult = None\<rparr>,
          s3))"

text \<open>
  The function after \<open>await Promise.allSettled\<close>, from the three settled outcomes;
  \<open>Inr None\<close> is the \<open>null\<close> of a provider that is not enabled. A rejected task leaves
  the empty payload and a line of \<open>console.error\<close>.
\<close>

definition settledActivity ::
  "Source \<Rightarrow> string \<Rightarrow> Date \<Rightarrow> (error + (GitLabActivity \<times> bool) option) \<Rightarrow> Server
     \<Rightarrow> GitLabActivity \<times> bool \<times> Server" where
  "settledActivity src dateStr d result s =
     (case result of
        Inr (Some (act, fromCache)) \<Rightarrow> (act, fromCache, s)
      | Inr None \<Rightarrow> (emptyActivity d, False, s)
      | Inl e \<Rightarrow> (emptyActivity d, False, sendProgress (TaskFailed src dateStr) s))"

definition assembleDay ::
  "TimeZone \<Rightarrow> string \<Rightarrow> (error + (GitLabActivity \<times> bool) option)
     \<Rightarrow> (error + (GitLabActivity \<times> bool) option) \<Rightarrow> (error + CalendarEvent list \<times> bool) \<Rightarrow> Server
     \<Rightarrow> DayResult \<times> Server" where
  "assembleDay tz dateStr gitlabResult githubResult calendarResult s =
     (let d = parseDateStr tz dateStr;
          (gitlabAct, gitlabCached, s1) = settledActivity GitLab dateStr d gitlabResult s;
          (githubAct, githubCached, s2) = settledActivity GitHub dateStr d githubResult s1;
          (evs, calendarCached, s3) =
             (case calendarResult of
                Inr (ms, fromCache) \<Rightarrow> (ms, fromCache, s2)
              | Inl e \<Rightarrow> ([], False, sendProgress (TaskFailed GoogleCalendar dateStr) s2));
          mergedActivity = mergeGitActivities gitlabAct githubAct
      in (\<lparr>activity = \<lparr>date = d, meetings = evs, gitlabActivity = mergedActivity,
                        description = []\<rparr>,
           cacheInfo = \<lparr>gitlab_info = gitlabCached, github_info = githubCached,
                        calendar_info = calendarCached\<rparr>\<rparr>,
          s3))"

text \<open>
  The outcome of a promise of \<open>Promise.allSettled\<close>, \<open>None\<close> while it is pending.
\<close>

definition outcomeOf :: "'r Task \<Rightarrow> 'r option" where
  "outcomeOf t = (case t of Settled r \<Rightarrow> Some r | Pending rest \<Rightarrow> None)"

definition activityOutcome ::
  "(error + GitLabActivity \<times> bool) Task option \<Rightarrow> (error + (GitLabActivity \<times> bool) option) option" where
  "activityOutcome promise =
     (case promise of
        None \<Rightarrow> Some (Inr None)
      | Some t \<Rightarrow> map_option (map_sum id Some) (outcomeOf t))"

text \<open>
  The order in which the pending tasks of a request resume depends on the network and
  on the disk: it is a parameter, the schedule, a list of resumptions. A resumption
  names a day of the request and, of that day, one of its three tasks or the function
  \<open>fetchDayActivityParallel\<close> itself, which resumes once its three tasks are settled.
  A resumption of something that is settled, or of a day that still waits, does
  nothing.
\<close>

datatype Slot = OfGitLab | OfGitHub | OfCalendar | OfDay

definition resumeDay :: "TimeZone \<Rightarrow> Slot \<Rightarrow> DayTasks \<Rightarrow> Server \<Rightarrow> DayTasks \<times> Server" where
  "resumeDay tz slot day s =
     (case slot of
        OfGitLab \<Rightarrow>
          (case gitlabTask day of
             None \<Rightarrow> (day, s)
           | Some t \<Rightarrow> (case resumeTask t s of (t', s') \<Rightarrow> (day\<lparr>gitlabTask := Some t'\<rparr>, s')))
      | OfGitHub \<Rightarrow>
          (case githubTask day of
             None \<Rightarrow> (day, s)
           | Some t \<Rightarrow> (case resumeTask t s of (t', s') \<Rightarrow> (day\<lparr>githubTask := Some t'\<rparr>, s')))
      | OfCalendar \<Rightarrow>
          (case resumeTask (calendarTask day) s of (t', s') \<Rightarrow> (day\<lparr>calendarTask := t'\<rparr>, s'))
      | OfDay \<Rightarrow>
          (case (dayResult day, activityOutcome (gitlabTask day), activityOutcome (githubTask day),
                 outcomeOf (calendarTask day)) of
             (None, Some gitlabResult, Some githubResult, Some calendarResult) \<Rightarrow>
               (case assembleDay tz (dayStr day) gitlabResult githubResult calendarResult s of
                  (r, s') \<Rightarrow> (day\<lparr>dayResult := Some r\<rparr>, s'))
           | _ \<Rightarrow> (day, s)))"

fun runSchedule ::
  "TimeZone \<Rightarrow> (nat \<times> Slot) list \<Rightarrow> DayTasks list \<Rightarrow> Server \<Rightarrow> DayTasks list \<times> Server" where
  "runSchedule tz [] days s = (days, s)"
| "runSchedule tz ((i, slot) # schedule) days s =
     (if i < length days
      then (case resumeDay tz slot (days ! i) s of
              (day', s') \<Rightarrow> runSchedule tz schedule (days[i := day']) s')
      else runSchedule tz schedule days s)"

text \<open>
  Every task settles: when the schedule is at its end, what is still pending runs to
  its end, day after day.
\<close>

definition finishDay :: "TimeZone \<Rightarrow> DayTasks \<Rightarrow> Server \<Rightarrow> DayResult \<times> Server" where
  "finishDay tz day s =
     (let (gitlabResult, s1) =
             (case gitlabTask day of
                None \<Rightarrow> (Inr None, s)
              | Some t \<Rightarrow> (case complete t s of (r, s') \<Rightarrow> (map_sum id Some r, s')));
          (githubResult, s2) =
             (case githubTask day of
                None \<Rightarrow> (Inr None, s1)
              | Some t \<Rightarrow> (case complete t s1 of (r, s') \<Rightarrow> (map_sum id Some r, s')));
          (calendarResult, s3) = complete (calendarTask day) s2
      in case dayResult day of
           Some r \<Rightarrow> (r, s3)
         | None \<Rightarrow> assembleDay tz (dayStr day) gitlabResult githubResult calendarResult s3)"

fun finishDays :: "TimeZone \<Rightarrow> DayTasks list \<Rightarrow> Server \<Rightarrow> DayResult list \<times> Server" where
  "finishDays tz [] s = ([], s)"
| "finishDays tz (day # days) s =
     (case finishDay tz day s of
        (r, s1) \<Rightarrow> (case finishDays tz days s1 of (rs, s2) \<Rightarrow> (r # rs, s2)))"

text \<open>The local day of a date, as \<open>fetchMultipleDaysParallel\<close> writes it.\<close>

definition localDateStr :: "TimeZone \<Rightarrow> Date \<Rightarrow> string" where
  "localDateStr tz d =
     String_of (getFullYear tz d) @ ''-'' @ padStart 2 CHR ''0'' (String_of (getMonth tz d + 1))
       @ ''-'' @ padStart 2 CHR ''0'' (String_of (getDate tz d))"

text \<open>
  \<open>dates.map(...)\<close> calls \<open>fetchDayActivityParallel\<close> for every date, one call after the
  other: the parts of all the days that run at the call, with their cache lookups,
  come before any resumption.
\<close>

fun startDays ::
  "Providers \<Rightarrow> TimeZone \<Rightarrow> int \<Rightarrow> bool \<Rightarrow> bool \<Rightarrow> bool \<Rightarrow> bool \<Rightarrow> bool \<Rightarrow> Date list \<Rightarrow> Server
     \<Rightarrow> DayTasks list \<times> Server" where
  "startDays env tz now gl gh goo out force [] s = ([], s)"
| "startDays env tz now gl gh goo out force (d # ds) s =
     (case fetchDayActivityParallel env tz now (localDateStr tz d) gl gh goo out force s of
        (day, s1) \<Rightarrow>
          (case startDays env tz now gl gh goo out force ds s1 of
             (days, s2) \<Rightarrow> (day # days, s2)))"

text \<open>
  \<open>dates[0].toISOString()\<close> on an empty array is a \<open>TypeError\<close>: the function rejects
  before it fetches anything. Otherwise no day rejects, and \<open>Promise.all\<close> is fulfilled
  with the results of the days in the order of the dates.
\<close>

definition fetchMultipleDaysParallel ::
  "Providers \<Rightarrow> TimeZone \<Rightarrow> int \<Rightarrow> (nat \<times> Slot) list \<Rightarrow> Date list \<Rightarrow> bool \<Rightarrow> bool \<Rightarrow> bool \<Rightarrow> bool
     \<Rightarrow> bool \<Rightarrow> Server \<Rightarrow> (error + DayResult list) \<times> Server" where
  "fetchMultipleDaysParallel env tz now schedule dates gitlabAuthenticated githubAuthenticated
       googleAuthenticated outlookAuthenticated forceRefresh s =
     (if dates = [] then (Inl TypeError, s)
      else
        (let dateRange = (if length dates > 1
                          then isoDay (dates ! 0) @ '' to '' @ isoDay (dates ! (length dates - 1))
                          else isoDay (dates ! 0));
             sources = (if gitlabAuthenticated then [GitLab] else [])
                       @ (if githubAuthenticated then [GitHub] else [])
                       @ (if googleAuthenticated then [GoogleCalendar] else [])
                       @ (if outlookAuthenticated then [OutlookCalendar] else []);
             s1 = (if length sources > 0 then sendProgress (FetchingFrom sources dateRange) s
                   else s);
             (days, s2) = startDays env tz now gitlabAuthenticated githubAuthenticated
                            googleAuthenticated outlookAuthenticated forceRefresh dates s1;
             (days', s3) = runSchedule tz schedule days s2;
             (results, s4) = finishDays tz days' s3
         in (Inr results, s4)))"

subsection \<open>What a day's fetch reads, and what a failure is\<close>

text \<open>
  \<open>freshOf\<close> is the payload a lookup finds in an entry, \<open>keepFresh\<close> the entry it
  leaves. \<open>dayKeyOf\<close> is the cache key that a day of a request is stored under.
\<close>

definition freshOf :: "int \<Rightarrow> int \<Rightarrow> 'a CacheEntry option \<Rightarrow> 'a option" where
  "freshOf now ttl entry =
     (case entry of None \<Rightarrow> None
      | Some e \<Rightarrow> if now - timestamp e > ttl then None else Some (data e))"

definition keepFresh :: "int \<Rightarrow> int \<Rightarrow> 'a CacheEntry option \<Rightarrow> 'a CacheEntry option" where
  "keepFresh now ttl entry =
     (case entry of None \<Rightarrow> None
      | Some e \<Rightarrow> if now - timestamp e > ttl then None else Some e)"

definition dayKeyOf :: "TimeZone \<Rightarrow> Date \<Rightarrow> string" where
  "dayKeyOf tz d = getDateKey (parseDateStr tz (localDateStr tz d))"

text \<open>
  The cache as a day's fetch sees it under one key: the time to live, whether the
  file can be written, and the three entries.
\<close>

definition seenAt ::
  "string \<Rightarrow> Server \<Rightarrow> int \<times> bool \<times> GitLabActivity CacheEntry option
     \<times> CalendarEvent list CacheEntry option \<times> CalendarEvent list CacheEntry option" where
  "seenAt key s =
     (cacheTTL (activityCache s), writable (activityCache s),
      gitlab (cache (activityCache s)) key,
      googleCalendar (cache (activityCache s)) key,
      outlookCalendar (cache (activityCache s)) key)"

text \<open>
  Two environments give the same outcomes on a day; they do so for every source but
  one; a source rejects on a day; a source answers with the empty payload on a day.
\<close>

definition sameOutcomes :: "Providers \<Rightarrow> Providers \<Rightarrow> string \<Rightarrow> bool" where
  "sameOutcomes env env' dateStr \<longleftrightarrow>
     gitlab_getActivityForDate env dateStr = gitlab_getActivityForDate env' dateStr \<and>
     github_getActivityForDate env dateStr = github_getActivityForDate env' dateStr \<and>
     googleCalendar_getEventsForDate env dateStr = googleCalendar_getEventsForDate env' dateStr \<and>
     outlookCalendar_getEventsForDate env dateStr = outlookCalendar_getEventsForDate env' dateStr"

definition outcomesExcept :: "Source \<Rightarrow> Providers \<Rightarrow> Providers \<Rightarrow> string \<Rightarrow> bool" where
  "outcomesExcept p env env' dateStr \<longleftrightarrow>
     (p = GitLab \<or> gitlab_getActivityForDate env dateStr = gitlab_getActivityForDate env' dateStr) \<and>
     (p = GitHub \<or> github_getActivityForDate env dateStr = github_getActivityForDate env' dateStr) \<and>
     (p = GoogleCalendar \<or>
        googleCalendar_getEventsForDate env dateStr = googleCalendar_getEventsForDate env' dateStr) \<and>
     (p = OutlookCalendar \<or>
        outlookCalendar_getEventsForDate env dateStr = outlookCalendar_getEventsForDate env' dateStr)"

definition rejectsAt :: "Source \<Rightarrow> Providers \<Rightarrow> string \<Rightarrow> bool" where
  "rejectsAt p env dateStr =
     (case p of
        GitLab \<Rightarrow> isl (gitlab_getActivityForDate env dateStr)
      | GitHub \<Rightarrow> isl (github_getActivityForDate env dateStr)
      | GoogleCalendar \<Rightarrow> isl (googleCalendar_getEventsForDate env dateStr)
      | OutlookCalendar \<Rightarrow> isl (outlookCalendar_getEventsForDate env dateStr))"

definition emptyAt :: "Source \<Rightarrow> TimeZone \<Rightarrow> Providers \<Rightarrow> string \<Rightarrow> bool" where
  "emptyAt p tz env dateStr =
     (case p of
        GitLab \<Rightarrow> gitlab_getActivityForDate env dateStr = Inr (emptyActivity (parseDateStr tz dateStr))
      | GitHub \<Rightarrow> github_getActivityForDate env dateStr = Inr (emptyActivity (parseDateStr tz dateStr))
      | GoogleCalendar \<Rightarrow> googleCalendar_getEventsForDate env dateStr = Inr []
      | OutlookCalendar \<Rightarrow> outlookCalendar_getEventsForDate env dateStr = Inr [])"

text \<open>
  The result of \<open>fetchCalendarEventsWithCache\<close> as a function of what it reads: the two
  entries under the day's key and the two adapters' outcomes.
\<close>

definition calendarOutcome ::
  "int \<Rightarrow> int \<Rightarrow> CalendarEvent list CacheEntry option \<Rightarrow> CalendarEvent list CacheEntry option
     \<Rightarrow> (error + CalendarEvent list) \<Rightarrow> (error + CalendarEvent list) \<Rightarrow> bool \<Rightarrow> bool \<Rightarrow> bool
     \<Rightarrow> CalendarEvent list \<times> bool" where
  "calendarOutcome now ttl googleEntry outlookEntry googleAnswer outlookAnswer
       googleAuthenticated outlookAuthenticated forceRefresh =
     (case (if googleAuthenticated \<and> \<not> forceRefresh then freshOf now ttl googleEntry else None) of
        Some cached \<Rightarrow> (cached, True)
      | None \<Rightarrow>
          (let current = (if googleAuthenticated
                          then (case googleAnswer of Inl e \<Rightarrow> [] | Inr evs \<Rightarrow> evs) else [])
           in if length current = 0 \<and> outlookAuthenticated
              then (case (if \<not> forceRefresh then freshOf now ttl outlookEntry else None) of
                      Some cached \<Rightarrow> (cached, True)
                    | None \<Rightarrow> ((case outlookAnswer of Inl e \<Rightarrow> current | Inr evs \<Rightarrow> evs), False))
              else (current, False)))"

text \<open>
  What an activity provider contributes to the day's record, from what its task reads:
  the payload found in the cache, the adapter's outcome, whether the cache file can be
  written, and whether the provider is enabled.
\<close>

definition gitOutcome ::
  "GitLabActivity option \<Rightarrow> (error + GitLabActivity) \<Rightarrow> bool \<Rightarrow> bool \<Rightarrow> Date
     \<Rightarrow> GitLabActivity \<times> bool" where
  "gitOutcome hit answer canWrite enabled d =
     (if \<not> enabled then (emptyActivity d, False)
      else (case hit of
              Some a \<Rightarrow> (a, True)
            | None \<Rightarrow>
                (case answer of
                   Inl e \<Rightarrow> (emptyActivity d, False)
                 | Inr act \<Rightarrow> if canWrite then (act, False) else (emptyActivity d, False))))"

section \<open>Sample inputs\<close>

text \<open>A cache holding one GitLab entry, captured at time 0 for the day of time 0.\<close>

definition sampleCache :: ActivityCache where
  "sampleCache =
     (newActivityCache None True)
       \<lparr>cache := emptyCacheData
          \<lparr>gitlab := [getDateKey 0 \<mapsto> \<lparr>data = emptyActivity 0, timestamp = 0, source = ''gitlab''\<rparr>]\<rparr>,
        cacheStats := zeroStats\<lparr>gitlabHits := 2, outlookMisses := 1\<rparr>\<rparr>"

definition msDay :: "int \<Rightarrow> Date" where
  "msDay n = n * msPerDay"

definition emptyDay :: "Date \<Rightarrow> DayActivity" where
  "emptyDay d = \<lparr>date = d, meetings = [], gitlabActivity = emptyActivity d, description = []\<rparr>"

definition sampleCommit :: "string \<Rightarrow> Commit" where
  "sampleCommit m = \<lparr>message = m, project = ''app'', branch = ''main''\<rparr>"

definition commitDay :: "Date \<Rightarrow> string list \<Rightarrow> DayActivity" where
  "commitDay d ms =
     \<lparr>date = d, meetings = [],
      gitlabActivity = (emptyActivity d)\<lparr>commits := map sampleCommit ms\<rparr>, description = []\<rparr>"

definition meetingDay :: "Date \<Rightarrow> DayActivity" where
  "meetingDay d =
     \<lparr>date = d,
      meetings = [\<lparr>ev_title = ''standup'', ev_start = d, ev_end = d + 1800000, attendees = None\<rparr>],
      gitlabActivity = emptyActivity d, description = []\<rparr>"

definition sampleFullDays :: "DayActivity list" where
  "sampleFullDays = [commitDay (msDay 0) [''fix login''], meetingDay (msDay 1)]"

definition sampleGapDays :: "DayActivity list" where
  "sampleGapDays = [emptyDay (msDay 0), commitDay (msDay 1) [''parser'', ''tests'']]"

definition sampleTrailingDays :: "DayActivity list" where
  "sampleTrailingDays =
     [emptyDay (msDay 0), commitDay (msDay 1) [''parser'', ''tests''], emptyDay (msDay 2),
      emptyDay (msDay 3)]"


definition sampleBurst :: "DayActivity list" where
  "sampleBurst =
     [emptyDay (msDay 0), emptyDay (msDay 1),
      commitDay (msDay 2) [''parser'', ''tests'', ''docs'']]"

definition sampleEvent :: CalendarEvent where
  "sampleEvent = \<lparr>ev_title = ''standup'', ev_start = 0, ev_end = 1800000, attendees = Some 3\<rparr>"

definition sampleActivity :: "string \<Rightarrow> GitLabActivity" where
  "sampleActivity m = (emptyActivity 0)\<lparr>commits := [sampleCommit m]\<rparr>"

text \<open>
  GitLab and GitHub answer with one commit each, the Google calendar with no event and
  the Outlook calendar with one event, on every day.
\<close>

definition sampleProviders :: Providers where
  "sampleProviders =
     \<lparr>gitlab_getActivityForDate = (\<lambda>dateStr. Inr (sampleActivity ''gitlab work'')),
      github_getActivityForDate = (\<lambda>dateStr. Inr (sampleActivity ''github work'')),
      googleCalendar_getEventsForDate = (\<lambda>dateStr. Inr []),
      outlookCalendar_getEventsForDate = (\<lambda>dateStr. Inr [sampleEvent])\<rparr>"

definition newServer :: Server where
  "newServer = \<lparr>activityCache = newActivityCache None True, progressLog = []\<rparr>"

definition sampleWarmServer :: Server where
  "sampleWarmServer =
     snd (fetchCalendarEventsWithCache sampleProviders (fixedOffset 0) 1000 ''2024-03-15'' True True
          False newServer)"

text \<open>
  The sample providers with GitLab rejecting on 2024-03-15, and with GitLab answering
  the empty payload on that day.
\<close>

definition failingProviders :: Providers where
  "failingProviders =
     sampleProviders\<lparr>gitlab_getActivityForDate :=
       (\<lambda>dateStr. if dateStr = ''2024-03-15'' then Inl (ProviderError ''503'')
                   else Inr (sampleActivity ''gitlab work''))\<rparr>"

definition emptyProviders :: Providers where
  "emptyProviders =
     sampleProviders\<lparr>gitlab_getActivityForDate :=
       (\<lambda>dateStr. if dateStr = ''2024-03-15'' then Inr (emptyActivity (parseDateStr (fixedOffset 0) dateStr))
                   else Inr (sampleActivity ''gitlab work''))\<rparr>"

definition sampleDates :: "Date list" where
  "sampleDates = [msDay 19797, msDay 19798]"

section \<open>The cache: expiry and clearing\<close>

text \<open>
  C3. For every cache kind and every day key, a lookup returns a payload if and only if
  an entry is stored under the key and \<open>now - timestamp \<le> ttl\<close>; a lookup made exactly
  one tick after the time to live reports a miss and leaves no entry under the key.
\<close>

theorem cache_hit_iff_fresh:
  "(fst (getFound kind now d c) \<longleftrightarrow>
      (\<exists>ts. entryTimestamp kind (cache c) (getDateKey d) = Some ts \<and> now - ts \<le> cacheTTL c)) \<and>
   (entryTimestamp kind (cache c) (getDateKey d) = Some (now - (cacheTTL c + 1)) \<longrightarrow>
      \<not> fst (getFound kind now d c) \<and>
      entryTimestamp kind (cache (snd (getFound kind now d c))) (getDateKey d) = None)"
proof (cases kind)
  case GitLabKind
  then show ?thesis
    by (auto simp: getFound_def entryTimestamp_def getGitLabActivity_def isExpired_def Let_def
        split: option.splits)
next
  case GoogleCalendarKind
  then show ?thesis
    by (auto simp: getFound_def entryTimestamp_def getGoogleCalendarEvents_def isExpired_def
        Let_def split: option.splits)
next
  case OutlookCalendarKind
  then show ?thesis
    by (auto simp: getFound_def entryTimestamp_def getOutlookCalendarEvents_def isExpired_def
        Let_def split: option.splits)
qed

theorem cache_hit_iff_fresh_witness:
  "entryTimestamp GitLabKind (cache sampleCache) (getDateKey 0) = Some (3600001 - (cacheTTL sampleCache + 1)) \<and>
   \<not> fst (getFound GitLabKind 3600001 0 sampleCache) \<and>
   entryTimestamp GitLabKind (cache (snd (getFound GitLabKind 3600001 0 sampleCache))) (getDateKey 0) = None \<and>
   fst (getFound GitLabKind 3600000 0 sampleCache)"
proof -
  have ts: "entryTimestamp GitLabKind (cache sampleCache) (getDateKey 0) = Some 0"
    by (simp add: entryTimestamp_def sampleCache_def newActivityCache_def emptyCacheData_def)
  have ttl: "cacheTTL sampleCache = 3600000"
    by (simp add: sampleCache_def newActivityCache_def DEFAULT_CACHE_TTL_def)
  show ?thesis
    using cache_hit_iff_fresh [of GitLabKind 3600001 0 sampleCache]
      cache_hit_iff_fresh [of GitLabKind 3600000 0 sampleCache] ts ttl
    by simp
qed

text \<open>
  C10. \<open>clearAll\<close> empties every namespace and sets the six counters to zero. The scoped
  clears (\<open>clearGitLab\<close>, \<open>clearCalendars\<close>, \<open>clearExpired\<close>) never change a counter, so
  the statistics still count every lookup made before; they remove their targeted
  entries only, and write the store to the file. The parts about the file and about
  the reset are for a write that succeeds.
\<close>

theorem clear_scopes_and_counters:
  "cacheStats (snd (clearGitLab c)) = cacheStats c \<and>
   cacheStats (snd (clearCalendars c)) = cacheStats c \<and>
   cacheStats (snd (clearExpired now c)) = cacheStats c \<and>
   getCacheStats (snd (clearGitLab c)) = getCacheStats c \<and>
   getCacheStats (snd (clearCalendars c)) = getCacheStats c \<and>
   getCacheStats (snd (clearExpired now c)) = getCacheStats c \<and>
   cache (snd (clearAll c)) = emptyCacheData \<and>
   cache (snd (clearGitLab c)) = (cache c)\<lparr>gitlab := Map.empty\<rparr> \<and>
   cache (snd (clearCalendars c)) =
     (cache c)\<lparr>googleCalendar := Map.empty, outlookCalendar := Map.empty\<rparr> \<and>
   (\<forall>key e. (gitlab (cache (snd (clearExpired now c))) key = Some e \<longleftrightarrow>
              gitlab (cache c) key = Some e \<and> now - timestamp e \<le> cacheTTL c)) \<and>
   (\<forall>key e. (googleCalendar (cache (snd (clearExpired now c))) key = Some e \<longleftrightarrow>
              googleCalendar (cache c) key = Some e \<and> now - timestamp e \<le> cacheTTL c)) \<and>
   (\<forall>key e. (outlookCalendar (cache (snd (clearExpired now c))) key = Some e \<longleftrightarrow>
              outlookCalendar (cache c) key = Some e \<and> now - timestamp e \<le> cacheTTL c)) \<and>
   (writable c \<longrightarrow>
      fst (clearAll c) = Inr () \<and> cacheStats (snd (clearAll c)) = zeroStats \<and>
      cacheFile (snd (clearAll c)) = Some emptyCacheData \<and>
      fst (clearGitLab c) = Inr () \<and>
      cacheFile (snd (clearGitLab c)) = Some (cache (snd (clearGitLab c))) \<and>
      fst (clearCalendars c) = Inr () \<and>
      cacheFile (snd (clearCalendars c)) = Some (cache (snd (clearCalendars c))) \<and>
      fst (clearExpired now c) = Inr () \<and>
      cacheFile (snd (clearExpired now c)) = Some (cache (snd (clearExpired now c))))"
proof -
  have stats: "cacheStats (snd (clearGitLab c)) = cacheStats c"
    "cacheStats (snd (clearCalendars c)) = cacheStats c"
    "cacheStats (snd (clearExpired now c)) = cacheStats c"
    by (simp_all add: clearGitLab_def clearCalendars_def clearExpired_def save_def)
  then have gets: "getCacheStats (snd (clearGitLab c)) = getCacheStats c"
    "getCacheStats (snd (clearCalendars c)) = getCacheStats c"
    "getCacheStats (snd (clearExpired now c)) = getCacheStats c"
    by (simp_all add: getCacheStats_def)
  have stores: "cache (snd (clearAll c)) = emptyCacheData"
    "cache (snd (clearGitLab c)) = (cache c)\<lparr>gitlab := Map.empty\<rparr>"
    "cache (snd (clearCalendars c)) =
       (cache c)\<lparr>googleCalendar := Map.empty, outlookCalendar := Map.empty\<rparr>"
    by (simp_all add: clearAll_def clearGitLab_def clearCalendars_def save_def resetStats_def)
  have drop: "dropExpired now ttl m key = Some e \<longleftrightarrow> m key = Some e \<and> now - timestamp e \<le> ttl"
    for ttl key and m :: "string \<rightharpoonup> 'a CacheEntry" and e
    by (auto simp: dropExpired_def split: option.splits)
  have expired: "gitlab (cache (snd (clearExpired now c))) = dropExpired now (cacheTTL c) (gitlab (cache c))"
    "googleCalendar (cache (snd (clearExpired now c))) = dropExpired now (cacheTTL c) (googleCalendar (cache c))"
    "outlookCalendar (cache (snd (clearExpired now c))) = dropExpired now (cacheTTL c) (outlookCalendar (cache c))"
    by (simp_all add: clearExpired_def save_def)
  have written: "writable c \<longrightarrow>
      fst (clearAll c) = Inr () \<and> cacheStats (snd (clearAll c)) = zeroStats \<and>
      cacheFile (snd (clearAll c)) = Some emptyCacheData \<and>
      fst (clearGitLab c) = Inr () \<and>
      cacheFile (snd (clearGitLab c)) = Some (cache (snd (clearGitLab c))) \<and>
      fst (clearCalendars c) = Inr () \<and>
      cacheFile (snd (clearCalendars c)) = Some (cache (snd (clearCalendars c))) \<and>
      fst (clearExpired now c) = Inr () \<and>
      cacheFile (snd (clearExpired now c)) = Some (cache (snd (clearExpired now c)))"
    by (simp add: clearAll_def clearGitLab_def clearCalendars_def clearExpired_def save_def
        resetStats_def)
  show ?thesis
    using stats gets stores written by (simp add: expired drop)
qed

theorem clear_scopes_and_counters_witness:
  "writable sampleCache \<and>
   cacheStats sampleCache \<noteq> zeroStats \<and>
   cacheStats (snd (clearAll sampleCache)) = zeroStats \<and>
   cache (snd (clearAll sampleCache)) = emptyCacheData \<and>
   cacheStats (snd (clearGitLab sampleCache)) = cacheStats sampleCache \<and>
   gitlab (cache (snd (clearGitLab sampleCache))) (getDateKey 0) = None \<and>
   cacheFile (snd (clearGitLab sampleCache)) = Some (cache (snd (clearGitLab sampleCache)))"
proof -
  have w: "writable sampleCache"
    by (simp add: sampleCache_def newActivityCache_def)
  have s: "cacheStats sampleCache \<noteq> zeroStats"
    by (simp add: sampleCache_def newActivityCache_def zeroStats_def)
  show ?thesis
    using clear_scopes_and_counters [of sampleCache 0] w s by simp
qed

section \<open>The distributor: supporting lemmas\<close>

lemma findNextFrom_Some:
  "findNextFrom acts i = Some j \<Longrightarrow>
     i \<le> j \<and> j < length acts \<and> hasAnyActivity (acts ! j) \<and>
     (\<forall>k. i \<le> k \<and> k < j \<longrightarrow> \<not> hasAnyActivity (acts ! k))"
proof (induction acts i rule: findNextFrom.induct)
  case (1 acts i)
  show ?case
  proof (cases "i < length acts \<and> \<not> hasAnyActivity (acts ! i)")
    case True
    with "1.prems" have rec: "findNextFrom acts (i + 1) = Some j"
      by (subst (asm) findNextFrom.simps) simp
    with "1.IH" True have ih: "i + 1 \<le> j \<and> j < length acts \<and> hasAnyActivity (acts ! j) \<and>
        (\<forall>k. i + 1 \<le> k \<and> k < j \<longrightarrow> \<not> hasAnyActivity (acts ! k))"
      by simp
    have "\<not> hasAnyActivity (acts ! k)" if "i \<le> k" "k < j" for k
      using that ih True by (cases "k = i") auto
    with ih show ?thesis by auto
  next
    case False
    with "1.prems" show ?thesis
      by (subst (asm) findNextFrom.simps) (auto split: if_splits)
  qed
qed

lemma findNextFrom_None:
  "(\<forall>k. i \<le> k \<and> k < length acts \<longrightarrow> \<not> hasAnyActivity (acts ! k)) \<Longrightarrow> findNextFrom acts i = None"
proof (induction acts i rule: findNextFrom.induct)
  case (1 acts i)
  then show ?case
    by (subst findNextFrom.simps) auto
qed

lemma findNextActivityDay_Some:
  "findNextActivityDay acts i = Some j \<Longrightarrow>
     i < j \<and> j < length acts \<and> hasAnyActivity (acts ! j) \<and>
     (\<forall>k. i < k \<and> k < j \<longrightarrow> \<not> hasAnyActivity (acts ! k))"
  unfolding findNextActivityDay_def by (drule findNextFrom_Some) auto

lemma findNextActivityDay_None:
  "(\<forall>k. i < k \<and> k < length acts \<longrightarrow> \<not> hasAnyActivity (acts ! k)) \<Longrightarrow>
     findNextActivityDay acts i = None"
  unfolding findNextActivityDay_def by (rule findNextFrom_None) auto

lemma map_update_same: "f v = f (xs ! i) \<Longrightarrow> map f (xs[i := v]) = map f xs"
  by (cases "i < length xs") (simp_all add: map_update list_update_same_conv list_update_beyond)

lemma distributeLoop_pos:
  "i < j \<Longrightarrow> 0 < min p (length (sel (gitlabActivity (acts ! j))) - idx) \<Longrightarrow>
     distributeLoop sel push j p i idx acts =
       distributeLoop sel push j p (i + 1)
         (idx + min p (length (sel (gitlabActivity (acts ! j))) - idx))
         (acts[i := push (acts ! i)
            (slice idx (idx + min p (length (sel (gitlabActivity (acts ! j))) - idx))
               (sel (gitlabActivity (acts ! j))))])"
  by (subst distributeLoop.simps) (simp add: Let_def)

lemma distributeLoop_zero:
  "i < j \<Longrightarrow> \<not> 0 < min p (length (sel (gitlabActivity (acts ! j))) - idx) \<Longrightarrow>
     distributeLoop sel push j p i idx acts = distributeLoop sel push j p (i + 1) idx acts"
  by (subst distributeLoop.simps) (auto simp: Let_def)

lemma distributeLoop_done:
  "\<not> i < j \<Longrightarrow> distributeLoop sel push j p i idx acts = (acts, idx)"
  by (subst distributeLoop.simps) simp

lemma length_distributeLoop:
  "length (fst (distributeLoop sel push j p i idx acts)) = length acts"
proof (induction sel push j p i idx acts rule: distributeLoop.induct)
  case (1 sel push j p i idx acts)
  then show ?case
    by (subst distributeLoop.simps) (simp add: Let_def)
qed

lemma drop_distributeLoop:
  "drop j (fst (distributeLoop sel push j p i idx acts)) = drop j acts"
proof (induction sel push j p i idx acts rule: distributeLoop.induct)
  case (1 sel push j p i idx acts)
  then show ?case
    by (subst distributeLoop.simps) (simp add: Let_def)
qed

lemma take_distributeLoop:
  "take i (fst (distributeLoop sel push j p i idx acts)) = take i acts"
proof (induction sel push j p i idx acts rule: distributeLoop.induct)
  case (1 sel push j p i idx acts)
  show ?case
  proof (cases "i < j")
    case True
    let ?src = "sel (gitlabActivity (acts ! j))"
    let ?toAdd = "min p (length ?src - idx)"
    show ?thesis
    proof (cases "?toAdd > 0")
      case pos: True
      let ?acts' = "acts[i := push (acts ! i) (slice idx (idx + ?toAdd) ?src)]"
      have "take (i + 1) (fst (distributeLoop sel push j p (i + 1) (idx + ?toAdd) ?acts')) = take (i + 1) ?acts'"
        using "1.IH"(1) True pos by simp
      then have "take i (take (i + 1) (fst (distributeLoop sel push j p (i + 1) (idx + ?toAdd) ?acts')))
          = take i (take (i + 1) ?acts')"
        by simp
      then have "take i (fst (distributeLoop sel push j p (i + 1) (idx + ?toAdd) ?acts')) = take i acts"
        by (simp add: min_def)
      with True pos show ?thesis
        by (simp add: distributeLoop_pos)
    next
      case zero: False
      have "take (i + 1) (fst (distributeLoop sel push j p (i + 1) idx acts)) = take (i + 1) acts"
        using "1.IH"(2) True zero by simp
      then have "take i (take (i + 1) (fst (distributeLoop sel push j p (i + 1) idx acts)))
          = take i (take (i + 1) acts)"
        by simp
      then have "take i (fst (distributeLoop sel push j p (i + 1) idx acts)) = take i acts"
        by (simp add: min_def)
      with True zero show ?thesis
        by (simp add: distributeLoop_zero)
    qed
  next
    case False
    then show ?thesis
      by (simp add: distributeLoop_done)
  qed
qed

lemma date_distributeLoop:
  assumes "\<And>d xs. date (push d xs) = date d"
  shows "map date (fst (distributeLoop sel push j p i idx acts)) = map date acts"
  using assms
proof (induction sel push j p i idx acts rule: distributeLoop.induct)
  case (1 sel push j p i idx acts)
  then show ?case
    by (subst distributeLoop.simps) (simp add: Let_def map_update_same)
qed

lemma active_distributeLoop:
  assumes "\<And>d xs. hasAnyActivity d \<Longrightarrow> hasAnyActivity (push d xs)"
    and "k < length acts" and "hasAnyActivity (acts ! k)"
  shows "hasAnyActivity (fst (distributeLoop sel push j p i idx acts) ! k)"
  using assms
proof (induction sel push j p i idx acts rule: distributeLoop.induct)
  case (1 sel push j p i idx acts)
  show ?case
  proof (cases "i < j")
    case True
    let ?src = "sel (gitlabActivity (acts ! j))"
    let ?toAdd = "min p (length ?src - idx)"
    show ?thesis
    proof (cases "?toAdd > 0")
      case pos: True
      let ?acts' = "acts[i := push (acts ! i) (slice idx (idx + ?toAdd) ?src)]"
      have "hasAnyActivity (?acts' ! k)"
        using "1.prems" by (cases "k = i") simp_all
      then have "hasAnyActivity (fst (distributeLoop sel push j p (i + 1) (idx + ?toAdd) ?acts') ! k)"
        using "1.IH"(1) True pos "1.prems" by simp
      with True pos show ?thesis
        by (simp add: distributeLoop_pos)
    next
      case zero: False
      have "hasAnyActivity (fst (distributeLoop sel push j p (i + 1) idx acts) ! k)"
        using "1.IH"(2) True zero "1.prems" by simp
      with True zero show ?thesis
        by (simp add: distributeLoop_zero)
    qed
  next
    case False
    with "1.prems" show ?thesis
      by (simp add: distributeLoop_done)
  qed
qed
lemma date_push [simp]:
  "date (pushCommits d cs) = date d" "date (pushMergeRequests d ms) = date d"
  "date (pushIssues d xs) = date d" "date (unshiftCommit c d) = date d"
  "date (pushPhase ph d) = date d"
  by (simp_all add: pushCommits_def pushMergeRequests_def pushIssues_def unshiftCommit_def
      pushPhase_def)

lemma active_push:
  "hasAnyActivity d \<Longrightarrow> hasAnyActivity (pushCommits d cs)"
  "hasAnyActivity d \<Longrightarrow> hasAnyActivity (pushMergeRequests d ms)"
  "hasAnyActivity d \<Longrightarrow> hasAnyActivity (pushIssues d xs)"
  by (auto simp: hasAnyActivity_def pushCommits_def pushMergeRequests_def pushIssues_def)


lemma active_synthetic [simp]:
  "hasAnyActivity (unshiftCommit c d)" "hasAnyActivity (pushPhase ph d)"
  by (simp_all add: hasAnyActivity_def unshiftCommit_def pushPhase_def)

text \<open>\<open>distributeWorkAcrossGap\<close> with its three loops named.\<close>

lemma distributeWorkAcrossGap_loops:
  "distributeWorkAcrossGap acts i j g =
     (let l1 = distributeLoop commits pushCommits j
                 (length (commits (gitlabActivity (acts ! j))) div (g + 1)) i 0 acts;
          l2 = distributeLoop mergeRequests pushMergeRequests j
                 (length (mergeRequests (gitlabActivity (acts ! j))) div (g + 1)) i 0 (fst l1);
          l3 = distributeLoop issues pushIssues j
                 (length (issues (gitlabActivity (acts ! j))) div (g + 1)) i 0 (fst l2)
      in if snd l1 > 0 \<or> snd l2 > 0 \<or> snd l3 > 0
         then (fst l3)[j := unshiftCommit (distributionNote g) (fst l3 ! j)]
         else fst l3)"
  by (simp add: distributeWorkAcrossGap_def Let_def split: prod.splits)

lemma length_distributeWorkAcrossGap [simp]:
  "length (distributeWorkAcrossGap acts i j g) = length acts"
  by (simp add: distributeWorkAcrossGap_loops Let_def length_distributeLoop)

lemma drop_mono_eq: "drop a xs = drop a ys \<Longrightarrow> a \<le> b \<Longrightarrow> drop b xs = drop b ys"
  by (metis drop_drop le_add_diff_inverse2)

lemma take_mono_eq: "take b xs = take b ys \<Longrightarrow> a \<le> b \<Longrightarrow> take a xs = take a ys"
  by (metis min.absorb_iff1 take_take)

lemma drop_Suc_distributeLoop:
  "drop (Suc j) (fst (distributeLoop sel push j p i idx xs)) = drop (Suc j) xs"
  using drop_distributeLoop [of j sel push p i idx xs] by (rule drop_mono_eq) simp

lemma drop_distributeWorkAcrossGap:
  "drop (Suc j) (distributeWorkAcrossGap acts i j g) = drop (Suc j) acts"
  by (simp add: distributeWorkAcrossGap_loops Let_def drop_Suc_distributeLoop)

lemma take_distributeWorkAcrossGap:
  "i \<le> j \<Longrightarrow> take i (distributeWorkAcrossGap acts i j g) = take i acts"
  by (simp add: distributeWorkAcrossGap_loops Let_def take_distributeLoop)

lemma date_distributeWorkAcrossGap [simp]:
  "map date (distributeWorkAcrossGap acts i j g) = map date acts"
  by (simp add: distributeWorkAcrossGap_loops Let_def date_distributeLoop map_update_same)

lemma active_distributeWorkAcrossGap:
  assumes "k < length acts" "hasAnyActivity (acts ! k)"
  shows "hasAnyActivity (distributeWorkAcrossGap acts i j g ! k)"
proof -
  let ?l1 = "distributeLoop commits pushCommits j
                 (length (commits (gitlabActivity (acts ! j))) div (g + 1)) i 0 acts"
  let ?l2 = "distributeLoop mergeRequests pushMergeRequests j
                 (length (mergeRequests (gitlabActivity (acts ! j))) div (g + 1)) i 0 (fst ?l1)"
  let ?l3 = "distributeLoop issues pushIssues j
                 (length (issues (gitlabActivity (acts ! j))) div (g + 1)) i 0 (fst ?l2)"
  have a1: "hasAnyActivity (fst ?l1 ! k)"
    using assms by (intro active_distributeLoop active_push)
  have a2: "hasAnyActivity (fst ?l2 ! k)"
    using assms a1 by (intro active_distributeLoop active_push) (simp_all add: length_distributeLoop)
  have a3: "hasAnyActivity (fst ?l3 ! k)"
    using assms a2 by (intro active_distributeLoop active_push) (simp_all add: length_distributeLoop)
  have "hasAnyActivity ((fst ?l3)[j := unshiftCommit (distributionNote g) (fst ?l3 ! j)] ! k)"
    using a3 assms by (cases "k = j") (simp_all add: length_distributeLoop)
  with a3 show ?thesis
    by (simp add: distributeWorkAcrossGap_loops Let_def)
qed

subsection \<open>The scan\<close>

lemma distributeScan_done:
  "\<not> i < length acts \<Longrightarrow> distributeScan acts i g d = (acts, g, d)"
  by (subst distributeScan.simps) simp

lemma distributeScan_active:
  "i < length acts \<Longrightarrow> hasAnyActivity (acts ! i) \<Longrightarrow>
     distributeScan acts i g d = distributeScan acts (i + 1) g d"
  by (subst distributeScan.simps) simp

lemma distributeScan_tail:
  "i < length acts \<Longrightarrow> \<not> hasAnyActivity (acts ! i) \<Longrightarrow> findNextActivityDay acts i = None \<Longrightarrow>
     distributeScan acts i g d = distributeScan acts (i + 1) g d"
  by (subst distributeScan.simps) simp

lemma distributeScan_gap:
  "i < length acts \<Longrightarrow> \<not> hasAnyActivity (acts ! i) \<Longrightarrow> findNextActivityDay acts i = Some j \<Longrightarrow>
     distributeScan acts i g d =
       distributeScan (distributeWorkAcrossGap acts i j (j - i)) (i + 1) (g + (j - i)) (d + 1)"
  by (subst distributeScan.simps) (simp add: Let_def)

lemma distributeScan_noGap:
  "noGapFrom i acts \<Longrightarrow> distributeScan acts i g d = (acts, g, d)"
proof (induction "length acts - i" arbitrary: i)
  case 0
  then show ?case by (simp add: distributeScan_done)
next
  case (Suc n)
  then have i: "i < length acts" by simp
  have next_ok: "noGapFrom (i + 1) acts"
    unfolding noGapFrom_def
  proof (intro allI impI)
    fix k m
    assume "i + 1 \<le> k \<and> k < m \<and> m < length acts \<and> \<not> hasAnyActivity (acts ! k)"
    then have "i \<le> k \<and> k < m \<and> m < length acts \<and> \<not> hasAnyActivity (acts ! k)"
      by simp
    with Suc.prems show "\<not> hasAnyActivity (acts ! m)"
      unfolding noGapFrom_def by blast
  qed
  have ih: "distributeScan acts (i + 1) g d = (acts, g, d)"
    using Suc.hyps(1) [of "i + 1"] Suc.hyps(2) next_ok by simp
  show ?case
  proof (cases "hasAnyActivity (acts ! i)")
    case True
    with i ih show ?thesis by (simp add: distributeScan_active)
  next
    case False
    have "findNextActivityDay acts i = None"
      using Suc.prems False by (intro findNextActivityDay_None) (auto simp: noGapFrom_def)
    with i False ih show ?thesis by (simp add: distributeScan_tail)
  qed
qed

lemma length_distributeScan [simp]:
  "length (fst (distributeScan acts i g d)) = length acts"
proof (induction acts i g d rule: distributeScan.induct)
  case (1 acts i g d)
  show ?case
  proof (cases "i < length acts")
    case False
    then show ?thesis by (simp add: distributeScan_done)
  next
    case i: True
    show ?thesis
    proof (cases "hasAnyActivity (acts ! i)")
      case True
      with i "1.IH" show ?thesis by (simp add: distributeScan_active)
    next
      case False
      show ?thesis
      proof (cases "findNextActivityDay acts i")
        case None
        with i False "1.IH" show ?thesis by (simp add: distributeScan_tail)
      next
        case (Some j)
        with i False "1.IH"(2) [OF i False Some refl] show ?thesis
          by (simp add: distributeScan_gap)
      qed
    qed
  qed
qed

lemma date_distributeScan [simp]:
  "map date (fst (distributeScan acts i g d)) = map date acts"
proof (induction acts i g d rule: distributeScan.induct)
  case (1 acts i g d)
  show ?case
  proof (cases "i < length acts")
    case False
    then show ?thesis by (simp add: distributeScan_done)
  next
    case i: True
    show ?thesis
    proof (cases "hasAnyActivity (acts ! i)")
      case True
      with i "1.IH" show ?thesis by (simp add: distributeScan_active)
    next
      case False
      show ?thesis
      proof (cases "findNextActivityDay acts i")
        case None
        with i False "1.IH" show ?thesis by (simp add: distributeScan_tail)
      next
        case (Some j)
        with i False "1.IH"(2) [OF i False Some refl] show ?thesis
          by (simp add: distributeScan_gap)
      qed
    qed
  qed
qed

lemma counter_distributeScan:
  "d \<le> snd (snd (distributeScan acts i g d))"
proof (induction acts i g d rule: distributeScan.induct)
  case (1 acts i g d)
  show ?case
  proof (cases "i < length acts")
    case False
    then show ?thesis by (simp add: distributeScan_done)
  next
    case i: True
    show ?thesis
    proof (cases "hasAnyActivity (acts ! i)")
      case True
      with i "1.IH" show ?thesis by (simp add: distributeScan_active)
    next
      case False
      show ?thesis
      proof (cases "findNextActivityDay acts i")
        case None
        with i False "1.IH" show ?thesis by (simp add: distributeScan_tail)
      next
        case (Some j)
        with i False "1.IH"(2) [OF i False Some refl] show ?thesis
          by (simp add: distributeScan_gap)
      qed
    qed
  qed
qed

lemma suffix_distributeScan:
  assumes "\<forall>day \<in> set (drop n acts). \<not> hasAnyActivity day"
  shows "drop n (fst (distributeScan acts i g d)) = drop n acts"
  using assms
proof (induction acts i g d rule: distributeScan.induct)
  case (1 acts i g d)
  show ?case
  proof (cases "i < length acts")
    case False
    then show ?thesis by (simp add: distributeScan_done)
  next
    case i: True
    show ?thesis
    proof (cases "hasAnyActivity (acts ! i)")
      case True
      with i "1.IH" "1.prems" show ?thesis by (simp add: distributeScan_active)
    next
      case False
      show ?thesis
      proof (cases "findNextActivityDay acts i")
        case None
        with i False "1.IH" "1.prems" show ?thesis by (simp add: distributeScan_tail)
      next
        case (Some j)
        from findNextActivityDay_Some [OF Some]
        have j: "i < j" "j < length acts" "hasAnyActivity (acts ! j)" by auto
        have "j < n"
        proof (rule ccontr)
          assume "\<not> j < n"
          then have "acts ! j \<in> set (drop n acts)"
            using j(2) by (auto simp: in_set_conv_nth intro!: exI [of _ "j - n"])
          with "1.prems" j(3) show False by blast
        qed
        then have same: "drop n (distributeWorkAcrossGap acts i j (j - i)) = drop n acts"
          using drop_distributeWorkAcrossGap [of j acts i "j - i"] by (rule_tac drop_mono_eq) auto
        with "1.IH"(2) [OF i False Some refl] "1.prems"
        have "drop n (fst (distributeScan (distributeWorkAcrossGap acts i j (j - i)) (i + 1)
                 (g + (j - i)) (d + 1))) = drop n acts"
          by simp
        with i False Some show ?thesis
          by (simp add: distributeScan_gap)
      qed
    qed
  qed
qed
subsection \<open>The phased scan\<close>

lemma phasesLoop_step:
  "i < length phases \<Longrightarrow> a + i < j \<Longrightarrow>
     phasesLoop phases a j i acts =
       phasesLoop phases a j (i + 1) (acts[a + i := pushPhase (phases ! i) (acts ! (a + i))])"
  by (subst phasesLoop.simps) simp

lemma phasesLoop_done:
  "\<not> (i < length phases \<and> a + i < j) \<Longrightarrow> phasesLoop phases a j i acts = acts"
  by (subst phasesLoop.simps) auto

lemma length_phasesLoop [simp]: "length (phasesLoop phases a j i acts) = length acts"
proof (induction phases a j i acts rule: phasesLoop.induct)
  case (1 phases a j i acts)
  then show ?case
    by (cases "i < length phases \<and> a + i < j") (simp_all add: phasesLoop_step phasesLoop_done)
qed

lemma drop_phasesLoop: "drop j (phasesLoop phases a j i acts) = drop j acts"
proof (induction phases a j i acts rule: phasesLoop.induct)
  case (1 phases a j i acts)
  then show ?case
    by (cases "i < length phases \<and> a + i < j") (simp_all add: phasesLoop_step phasesLoop_done)
qed

lemma take_phasesLoop: "take (a + i) (phasesLoop phases a j i acts) = take (a + i) acts"
proof (induction phases a j i acts rule: phasesLoop.induct)
  case (1 phases a j i acts)
  show ?case
  proof (cases "i < length phases \<and> a + i < j")
    case True
    let ?acts' = "acts[a + i := pushPhase (phases ! i) (acts ! (a + i))]"
    have "take (a + (i + 1)) (phasesLoop phases a j (i + 1) ?acts') = take (a + (i + 1)) ?acts'"
      using "1.IH" True by simp
    then have "take (a + i) (phasesLoop phases a j (i + 1) ?acts') = take (a + i) ?acts'"
      by (rule take_mono_eq) simp
    with True show ?thesis
      by (simp add: phasesLoop_step)
  next
    case False
    then show ?thesis by (simp add: phasesLoop_done)
  qed
qed

lemma date_phasesLoop [simp]: "map date (phasesLoop phases a j i acts) = map date acts"
proof (induction phases a j i acts rule: phasesLoop.induct)
  case (1 phases a j i acts)
  then show ?case
    by (cases "i < length phases \<and> a + i < j")
       (simp_all add: phasesLoop_step phasesLoop_done map_update_same)
qed

lemma drop_distributeWorkPhases:
  "drop j (distributeWorkPhases acts i j g src) = drop j acts"
  by (simp add: distributeWorkPhases_def drop_phasesLoop)

lemma take_distributeWorkPhases:
  "take i (distributeWorkPhases acts i j g src) = take i acts"
  using take_phasesLoop [of i 0] by (simp add: distributeWorkPhases_def)

lemma length_distributeWorkPhases [simp]:
  "length (distributeWorkPhases acts i j g src) = length acts"
  by (simp add: distributeWorkPhases_def)

lemma date_distributeWorkPhases [simp]:
  "map date (distributeWorkPhases acts i j g src) = map date acts"
  by (simp add: distributeWorkPhases_def)

lemma generateWorkPhases_nonempty: "0 < g \<Longrightarrow> generateWorkPhases g src \<noteq> []"
  by (auto simp: generateWorkPhases_def Let_def)

lemma first_distributeWorkPhases:
  assumes "i < j" "j < length acts"
  shows "distributeWorkPhases acts i j (j - i) src ! i
           = pushPhase (generateWorkPhases (j - i) src ! 0) (acts ! i)"
proof -
  let ?ph = "generateWorkPhases (j - i) src"
  let ?acts' = "acts[i := pushPhase (?ph ! 0) (acts ! i)]"
  have ne: "0 < length ?ph"
    using generateWorkPhases_nonempty [of "j - i" src] assms by simp
  have step: "phasesLoop ?ph i j 0 acts = phasesLoop ?ph i j 1 ?acts'"
    using phasesLoop_step [of 0 ?ph i j acts] ne assms by simp
  have "take (i + 1) (phasesLoop ?ph i j 1 ?acts') = take (i + 1) ?acts'"
    by (rule take_phasesLoop)
  then have "phasesLoop ?ph i j 1 ?acts' ! i = ?acts' ! i"
    by (metis less_add_one nth_take)
  with step assms show ?thesis
    by (simp add: distributeWorkPhases_def)
qed

lemma intelligentScan_done:
  "\<not> i < length acts \<Longrightarrow> intelligentScan acts i g d = (acts, g, d)"
  by (subst intelligentScan.simps) simp

lemma intelligentScan_active:
  "i < length acts \<Longrightarrow> hasAnyActivity (acts ! i) \<Longrightarrow>
     intelligentScan acts i g d = intelligentScan acts (i + 1) g d"
  by (subst intelligentScan.simps) simp

lemma intelligentScan_tail:
  "i < length acts \<Longrightarrow> \<not> hasAnyActivity (acts ! i) \<Longrightarrow> findNextActivityDay acts i = None \<Longrightarrow>
     intelligentScan acts i g d = intelligentScan acts (i + 1) g d"
  by (subst intelligentScan.simps) simp

lemma intelligentScan_gap:
  "i < length acts \<Longrightarrow> \<not> hasAnyActivity (acts ! i) \<Longrightarrow> findNextActivityDay acts i = Some j \<Longrightarrow>
     intelligentScan acts i g d =
       intelligentScan (distributeWorkPhases acts i j (j - i) (acts ! j)) (i + 1) (g + (j - i)) (d + 1)"
  by (subst intelligentScan.simps) (simp add: Let_def)

lemma intelligentScan_noGap:
  "noGapFrom i acts \<Longrightarrow> intelligentScan acts i g d = (acts, g, d)"
proof (induction "length acts - i" arbitrary: i)
  case 0
  then show ?case by (simp add: intelligentScan_done)
next
  case (Suc n)
  then have i: "i < length acts" by simp
  have next_ok: "noGapFrom (i + 1) acts"
    unfolding noGapFrom_def
  proof (intro allI impI)
    fix k m
    assume "i + 1 \<le> k \<and> k < m \<and> m < length acts \<and> \<not> hasAnyActivity (acts ! k)"
    then have "i \<le> k \<and> k < m \<and> m < length acts \<and> \<not> hasAnyActivity (acts ! k)"
      by simp
    with Suc.prems show "\<not> hasAnyActivity (acts ! m)"
      unfolding noGapFrom_def by blast
  qed
  have ih: "intelligentScan acts (i + 1) g d = (acts, g, d)"
    using Suc.hyps(1) [of "i + 1"] Suc.hyps(2) next_ok by simp
  show ?case
  proof (cases "hasAnyActivity (acts ! i)")
    case True
    with i ih show ?thesis by (simp add: intelligentScan_active)
  next
    case False
    have "findNextActivityDay acts i = None"
      using Suc.prems False by (intro findNextActivityDay_None) (auto simp: noGapFrom_def)
    with i False ih show ?thesis by (simp add: intelligentScan_tail)
  qed
qed

lemma length_intelligentScan [simp]:
  "length (fst (intelligentScan acts i g d)) = length acts"
proof (induction acts i g d rule: intelligentScan.induct)
  case (1 acts i g d)
  show ?case
  proof (cases "i < length acts")
    case False
    then show ?thesis by (simp add: intelligentScan_done)
  next
    case i: True
    show ?thesis
    proof (cases "hasAnyActivity (acts ! i)")
      case True
      with i "1.IH" show ?thesis by (simp add: intelligentScan_active)
    next
      case False
      show ?thesis
      proof (cases "findNextActivityDay acts i")
        case None
        with i False "1.IH" show ?thesis by (simp add: intelligentScan_tail)
      next
        case (Some j)
        with i False "1.IH"(2) [OF i False Some refl refl] show ?thesis
          by (simp add: intelligentScan_gap)
      qed
    qed
  qed
qed

lemma counter_intelligentScan:
  "d \<le> snd (snd (intelligentScan acts i g d))"
proof (induction acts i g d rule: intelligentScan.induct)
  case (1 acts i g d)
  show ?case
  proof (cases "i < length acts")
    case False
    then show ?thesis by (simp add: intelligentScan_done)
  next
    case i: True
    show ?thesis
    proof (cases "hasAnyActivity (acts ! i)")
      case True
      with i "1.IH" show ?thesis by (simp add: intelligentScan_active)
    next
      case False
      show ?thesis
      proof (cases "findNextActivityDay acts i")
        case None
        with i False "1.IH" show ?thesis by (simp add: intelligentScan_tail)
      next
        case (Some j)
        with i False "1.IH"(2) [OF i False Some refl refl] show ?thesis
          by (simp add: intelligentScan_gap)
      qed
    qed
  qed
qed

lemma take_intelligentScan:
  "take i (fst (intelligentScan acts i g d)) = take i acts"
proof (induction acts i g d rule: intelligentScan.induct)
  case (1 acts i g d)
  show ?case
  proof (cases "i < length acts")
    case False
    then show ?thesis by (simp add: intelligentScan_done)
  next
    case i: True
    show ?thesis
    proof (cases "hasAnyActivity (acts ! i)")
      case True
      with i "1.IH" have "take (i + 1) (fst (intelligentScan acts (i + 1) g d)) = take (i + 1) acts"
        by simp
      then have "take i (fst (intelligentScan acts (i + 1) g d)) = take i acts"
        by (rule take_mono_eq) simp
      with i True show ?thesis by (simp add: intelligentScan_active)
    next
      case False
      show ?thesis
      proof (cases "findNextActivityDay acts i")
        case None
        with i False "1.IH"
        have "take (i + 1) (fst (intelligentScan acts (i + 1) g d)) = take (i + 1) acts"
          by simp
        then have "take i (fst (intelligentScan acts (i + 1) g d)) = take i acts"
          by (rule take_mono_eq) simp
        with i False None show ?thesis by (simp add: intelligentScan_tail)
      next
        case (Some j)
        let ?acts' = "distributeWorkPhases acts i j (j - i) (acts ! j)"
        have "take (i + 1) (fst (intelligentScan ?acts' (i + 1) (g + (j - i)) (d + 1)))
                = take (i + 1) ?acts'"
          using "1.IH"(2) [OF i False Some refl refl] .
        then have "take i (fst (intelligentScan ?acts' (i + 1) (g + (j - i)) (d + 1))) = take i ?acts'"
          by (rule take_mono_eq) simp
        with i False Some show ?thesis
          by (simp add: intelligentScan_gap take_distributeWorkPhases)
      qed
    qed
  qed
qed

lemma suffix_intelligentScan:
  assumes "\<forall>day \<in> set (drop n acts). \<not> hasAnyActivity day"
  shows "drop n (fst (intelligentScan acts i g d)) = drop n acts"
  using assms
proof (induction acts i g d rule: intelligentScan.induct)
  case (1 acts i g d)
  show ?case
  proof (cases "i < length acts")
    case False
    then show ?thesis by (simp add: intelligentScan_done)
  next
    case i: True
    show ?thesis
    proof (cases "hasAnyActivity (acts ! i)")
      case True
      with i "1.IH" "1.prems" show ?thesis by (simp add: intelligentScan_active)
    next
      case False
      show ?thesis
      proof (cases "findNextActivityDay acts i")
        case None
        with i False "1.IH" "1.prems" show ?thesis by (simp add: intelligentScan_tail)
      next
        case (Some j)
        from findNextActivityDay_Some [OF Some]
        have j: "i < j" "j < length acts" "hasAnyActivity (acts ! j)" by auto
        have "j < n"
        proof (rule ccontr)
          assume "\<not> j < n"
          then have "acts ! j \<in> set (drop n acts)"
            using j(2) by (auto simp: in_set_conv_nth intro!: exI [of _ "j - n"])
          with "1.prems" j(3) show False by blast
        qed
        then have same: "drop n (distributeWorkPhases acts i j (j - i) (acts ! j)) = drop n acts"
          using drop_distributeWorkPhases [of j acts i "j - i" "acts ! j"]
          by (rule_tac drop_mono_eq) auto
        with "1.IH"(2) [OF i False Some refl refl] "1.prems"
        have "drop n (fst (intelligentScan (distributeWorkPhases acts i j (j - i) (acts ! j)) (i + 1)
                 (g + (j - i)) (d + 1))) = drop n acts"
          by simp
        with i False Some show ?thesis
          by (simp add: intelligentScan_gap)
      qed
    qed
  qed
qed
subsection \<open>Gaps and the counters\<close>

lemma noGapFrom_Cons:
  "noGapFrom 0 (day # days) \<longleftrightarrow>
     (\<not> hasAnyActivity day \<longrightarrow> (\<forall>x \<in> set days. \<not> hasAnyActivity x)) \<and> noGapFrom 0 days"
proof
  assume ng: "noGapFrom 0 (day # days)"
  have a: "\<not> hasAnyActivity x" if "\<not> hasAnyActivity day" "x \<in> set days" for x
  proof -
    from that(2) obtain m where m: "m < length days" "days ! m = x"
      by (auto simp: in_set_conv_nth)
    from ng that(1) m(1) have "\<not> hasAnyActivity ((day # days) ! Suc m)"
      unfolding noGapFrom_def by (metis length_Cons not_less_eq nth_Cons_0 zero_le zero_less_Suc)
    with m show ?thesis by simp
  qed
  have b: "noGapFrom 0 days"
    unfolding noGapFrom_def
  proof (intro allI impI)
    fix k m
    assume h: "0 \<le> k \<and> k < m \<and> m < length days \<and> \<not> hasAnyActivity (days ! k)"
    then have "0 \<le> Suc k \<and> Suc k < Suc m \<and> Suc m < length (day # days)
        \<and> \<not> hasAnyActivity ((day # days) ! Suc k)"
      by simp
    with ng have "\<not> hasAnyActivity ((day # days) ! Suc m)"
      unfolding noGapFrom_def by blast
    then show "\<not> hasAnyActivity (days ! m)" by simp
  qed
  from a b show "(\<not> hasAnyActivity day \<longrightarrow> (\<forall>x \<in> set days. \<not> hasAnyActivity x)) \<and> noGapFrom 0 days"
    by blast
next
  assume h: "(\<not> hasAnyActivity day \<longrightarrow> (\<forall>x \<in> set days. \<not> hasAnyActivity x)) \<and> noGapFrom 0 days"
  show "noGapFrom 0 (day # days)"
    unfolding noGapFrom_def
  proof (intro allI impI)
    fix k m
    assume km: "0 \<le> k \<and> k < m \<and> m < length (day # days) \<and> \<not> hasAnyActivity ((day # days) ! k)"
    then obtain m' where m': "m = Suc m'" "m' < length days"
      by (cases m) auto
    show "\<not> hasAnyActivity ((day # days) ! m)"
    proof (cases k)
      case 0
      with km h m' show ?thesis by simp
    next
      case (Suc k')
      with km m' have "0 \<le> k' \<and> k' < m' \<and> m' < length days \<and> \<not> hasAnyActivity (days ! k')"
        by simp
      with h have "\<not> hasAnyActivity (days ! m')"
        unfolding noGapFrom_def by blast
      with m' show ?thesis by simp
    qed
  qed
qed

lemma gapExists_iff: "gapExists acts \<longleftrightarrow> \<not> noGapFrom 0 acts"
proof (induction acts)
  case Nil
  then show ?case by (simp add: noGapFrom_def)
next
  case (Cons day days)
  then show ?case
    by (auto simp: noGapFrom_Cons list_ex_iff)
qed

lemma findNextFrom_None_D:
  "findNextFrom acts i = None \<Longrightarrow> i \<le> k \<Longrightarrow> k < length acts \<Longrightarrow> \<not> hasAnyActivity (acts ! k)"
proof (induction acts i rule: findNextFrom.induct)
  case (1 acts i)
  from "1.prems" have i: "i < length acts" by simp
  from "1.prems"(1) i have here: "\<not> hasAnyActivity (acts ! i)"
    by (subst (asm) findNextFrom.simps) (auto split: if_splits)
  with "1.prems"(1) i have rec: "findNextFrom acts (i + 1) = None"
    by (subst (asm) findNextFrom.simps) simp
  show ?case
  proof (cases "k = i")
    case True
    with here show ?thesis by simp
  next
    case False
    with "1.IH" [OF i here rec] "1.prems" show ?thesis by simp
  qed
qed

lemma gap_found:
  assumes "\<not> noGapFrom i acts" "i < length acts" "\<not> hasAnyActivity (acts ! i)"
  shows "\<exists>j. findNextActivityDay acts i = Some j"
proof (rule ccontr)
  assume "\<nexists>j. findNextActivityDay acts i = Some j"
  then have none: "findNextFrom acts (i + 1) = None"
    by (simp add: findNextActivityDay_def)
  from assms(1) obtain k m where km: "i \<le> k" "k < m" "m < length acts" "hasAnyActivity (acts ! m)"
    unfolding noGapFrom_def by blast
  with findNextFrom_None_D [OF none, of m] show False by simp
qed

lemma noGapFrom_Suc:
  "\<not> noGapFrom i acts \<Longrightarrow> hasAnyActivity (acts ! i) \<Longrightarrow> \<not> noGapFrom (i + 1) acts"
  unfolding noGapFrom_def by (metis Suc_eq_plus1 Suc_leI le_neq_implies_less)

lemma noGapFrom_length: "\<not> noGapFrom i acts \<Longrightarrow> i < length acts"
  unfolding noGapFrom_def by auto

lemma gap_counted_distributeScan:
  "\<not> noGapFrom i acts \<Longrightarrow> d < snd (snd (distributeScan acts i g d))"
proof (induction "length acts - i" arbitrary: i)
  case 0
  with noGapFrom_length [of i acts] show ?case by simp
next
  case (Suc n)
  from Suc.prems have i: "i < length acts" by (rule noGapFrom_length)
  show ?case
  proof (cases "hasAnyActivity (acts ! i)")
    case True
    with Suc.hyps(1) [of "i + 1"] Suc.hyps(2) noGapFrom_Suc [OF Suc.prems True] i
    show ?thesis by (simp add: distributeScan_active)
  next
    case False
    from gap_found [OF Suc.prems i False] obtain j where j: "findNextActivityDay acts i = Some j" ..
    have "d + 1 \<le> snd (snd (distributeScan (distributeWorkAcrossGap acts i j (j - i)) (i + 1)
        (g + (j - i)) (d + 1)))"
      by (rule counter_distributeScan)
    with i False j show ?thesis
      by (simp add: distributeScan_gap)
  qed
qed

lemma gap_counted_intelligentScan:
  "\<not> noGapFrom i acts \<Longrightarrow> d < snd (snd (intelligentScan acts i g d))"
proof (induction "length acts - i" arbitrary: i)
  case 0
  with noGapFrom_length [of i acts] show ?case by simp
next
  case (Suc n)
  from Suc.prems have i: "i < length acts" by (rule noGapFrom_length)
  show ?case
  proof (cases "hasAnyActivity (acts ! i)")
    case True
    with Suc.hyps(1) [of "i + 1"] Suc.hyps(2) noGapFrom_Suc [OF Suc.prems True] i
    show ?thesis by (simp add: intelligentScan_active)
  next
    case False
    from gap_found [OF Suc.prems i False] obtain j where j: "findNextActivityDay acts i = Some j" ..
    have "d + 1 \<le> snd (snd (intelligentScan (distributeWorkPhases acts i j (j - i) (acts ! j)) (i + 1)
        (g + (j - i)) (d + 1)))"
      by (rule counter_intelligentScan)
    with i False j show ?thesis
      by (simp add: intelligentScan_gap)
  qed
qed

lemma gap_changes_intelligentScan:
  "\<not> noGapFrom i acts \<Longrightarrow> fst (intelligentScan acts i g d) \<noteq> acts"
proof (induction "length acts - i" arbitrary: i)
  case 0
  with noGapFrom_length [of i acts] show ?case by simp
next
  case (Suc n)
  from Suc.prems have i: "i < length acts" by (rule noGapFrom_length)
  show ?case
  proof (cases "hasAnyActivity (acts ! i)")
    case True
    with Suc.hyps(1) [of "i + 1"] Suc.hyps(2) noGapFrom_Suc [OF Suc.prems True] i
    show ?thesis by (simp add: intelligentScan_active)
  next
    case False
    from gap_found [OF Suc.prems i False] obtain j where j: "findNextActivityDay acts i = Some j" ..
    from findNextActivityDay_Some [OF j] have ij: "i < j" "j < length acts" by auto
    let ?acts' = "distributeWorkPhases acts i j (j - i) (acts ! j)"
    let ?res = "fst (intelligentScan ?acts' (i + 1) (g + (j - i)) (d + 1))"
    have "take (i + 1) ?res = take (i + 1) ?acts'"
      by (rule take_intelligentScan)
    then have "?res ! i = ?acts' ! i"
      by (metis less_add_one nth_take)
    then have "hasAnyActivity (?res ! i)"
      using first_distributeWorkPhases [OF ij] by simp
    with False have "?res \<noteq> acts" by auto
    with i False j show ?thesis
      by (simp add: intelligentScan_gap)
  qed
qed

lemma showNat_digits: "set (showNat n) \<subseteq> set ''0123456789''"
proof (induction n rule: showNat.induct)
  case (1 n)
  have d: "digitChar m \<in> set ''0123456789''" for m
  proof -
    have "m mod 10 = 0 \<or> m mod 10 = 1 \<or> m mod 10 = 2 \<or> m mod 10 = 3 \<or> m mod 10 = 4
        \<or> m mod 10 = 5 \<or> m mod 10 = 6 \<or> m mod 10 = 7 \<or> m mod 10 = 8 \<or> m mod 10 = 9"
      by presburger
    then show ?thesis
      unfolding digitChar_def by (elim disjE) simp_all
  qed
  show ?case
  proof (cases "n < 10")
    case True
    then show ?thesis
      using d [of n] by (subst showNat.simps) simp
  next
    case False
    with "1.IH" d [of n] show ?thesis
      by (subst showNat.simps) simp
  qed
qed

lemma showNat_no_newline: "CHR 10 \<notin> set (showNat n)"
  using showNat_digits [of n] by auto

subsection \<open>A distributed gap is filled\<close>

lemma nth_source_distributeLoop:
  "fst (distributeLoop sel push j p i idx acts) ! j = acts ! j"
proof (induction sel push j p i idx acts rule: distributeLoop.induct)
  case (1 sel push j p i idx acts)
  show ?case
  proof (cases "i < j")
    case True
    show ?thesis
    proof (cases "0 < min p (length (sel (gitlabActivity (acts ! j))) - idx)")
      case pos: True
      with "1.IH"(1) True show ?thesis
        by (simp add: distributeLoop_pos)
    next
      case zero: False
      with "1.IH"(2) True show ?thesis
        by (simp add: distributeLoop_zero)
    qed
  next
    case False
    then show ?thesis by (simp add: distributeLoop_done)
  qed
qed



lemma share_fits: "(g::nat) * (c div (g + 1)) \<le> c"
proof -
  have "g * (c div (g + 1)) \<le> (g + 1) * (c div (g + 1))"
    by simp
  also have "\<dots> \<le> c"
    by (rule times_div_less_eq_dividend)
  finally show ?thesis .
qed








subsection \<open>What a distribution copies\<close>

lemma push_nothing [simp]:
  "pushCommits d [] = d" "pushMergeRequests d [] = d" "pushIssues d [] = d"
  by (simp_all add: pushCommits_def pushMergeRequests_def pushIssues_def)

lemma push_nothing_all:
  "\<forall>d. pushCommits d [] = d" "\<forall>d. pushMergeRequests d [] = d" "\<forall>d. pushIssues d [] = d"
  by simp_all

lemma exact_distributeLoop:
  "\<forall>d. push d [] = d \<Longrightarrow> i \<le> j \<Longrightarrow> j < length acts \<Longrightarrow>
     idx + (j - i) * p \<le> length (sel (gitlabActivity (acts ! j))) \<Longrightarrow>
     snd (distributeLoop sel push j p i idx acts) = idx + (j - i) * p \<and>
     (\<forall>k < length acts.
        fst (distributeLoop sel push j p i idx acts) ! k =
          (if i \<le> k \<and> k < j
           then push (acts ! k)
                  (slice (idx + (k - i) * p) (idx + (k - i) * p + p) (sel (gitlabActivity (acts ! j))))
           else acts ! k))"
proof (induction sel push j p i idx acts rule: distributeLoop.induct)
  case (1 sel push j p i idx acts)
  let ?src = "sel (gitlabActivity (acts ! j))"
  note pushNil = "1.prems"(1)
  show ?case
  proof (cases "i < j")
    case False
    with "1.prems"(2) show ?thesis
      by (auto simp: distributeLoop_done)
  next
    case ij: True
    then have "j - i = Suc (j - (i + 1))" by simp
    then have split: "(j - i) * p = p + (j - (i + 1)) * p" by simp
    with "1.prems"(4) have room: "idx + p \<le> length ?src"
      and inv: "(idx + p) + (j - (i + 1)) * p \<le> length ?src"
      by simp_all
    from room have toAdd: "min p (length ?src - idx) = p" by simp
    show ?thesis
    proof (cases "0 < p")
      case pos: True
      let ?acts' = "acts[i := push (acts ! i) (slice idx (idx + p) ?src)]"
      let ?rec = "distributeLoop sel push j p (i + 1) (idx + p) ?acts'"
      have step: "distributeLoop sel push j p i idx acts = ?rec"
        using ij pos toAdd room by (simp add: distributeLoop_pos)
      have src': "sel (gitlabActivity (?acts' ! j)) = ?src"
        using ij by simp
      have "0 < min p (length ?src - idx)"
        using toAdd pos by simp
      from "1.IH"(1) [OF ij refl refl this] toAdd
      have raw: "\<forall>d. push d [] = d \<Longrightarrow> i + 1 \<le> j \<Longrightarrow> j < length ?acts' \<Longrightarrow>
          idx + p + (j - (i + 1)) * p \<le> length (sel (gitlabActivity (?acts' ! j))) \<Longrightarrow>
          snd ?rec = idx + p + (j - (i + 1)) * p \<and>
          (\<forall>k < length ?acts'.
             fst ?rec ! k =
               (if i + 1 \<le> k \<and> k < j
                then push (?acts' ! k)
                       (slice (idx + p + (k - (i + 1)) * p) (idx + p + (k - (i + 1)) * p + p)
                          (sel (gitlabActivity (?acts' ! j))))
                else ?acts' ! k))"
        by simp
      have p2: "i + 1 \<le> j" using ij by simp
      have p3: "j < length ?acts'" using "1.prems"(3) by simp
      have p4: "idx + p + (j - (i + 1)) * p \<le> length (sel (gitlabActivity (?acts' ! j)))"
        unfolding src' using inv .
      have len': "length ?acts' = length acts" by simp
      from raw [OF pushNil p2 p3 p4] ij "1.prems"(3)
      have ih: "snd ?rec = idx + p + (j - (i + 1)) * p"
        "\<forall>k < length acts.
             fst ?rec ! k =
               (if i + 1 \<le> k \<and> k < j
                then push (?acts' ! k)
                       (slice (idx + p + (k - (i + 1)) * p) (idx + p + (k - (i + 1)) * p + p) ?src)
                else ?acts' ! k)"
        by simp_all
      have elems: "fst ?rec ! k =
          (if i \<le> k \<and> k < j
           then push (acts ! k) (slice (idx + (k - i) * p) (idx + (k - i) * p + p) ?src)
           else acts ! k)" if k: "k < length acts" for k
      proof (cases "k = i")
        case True
        with ih(2) k ij show ?thesis by simp
      next
        case False
        show ?thesis
        proof (cases "i + 1 \<le> k \<and> k < j")
          case inside: True
          then have "k - i = Suc (k - (i + 1))" by auto
          then have "(k - i) * p = p + (k - (i + 1)) * p" by simp
          then have "idx + (k - i) * p = idx + p + (k - (i + 1)) * p" by simp
          with ih(2) k inside False show ?thesis by (simp add: add.assoc)
        next
          case outside: False
          with ih(2) k False show ?thesis by auto
        qed
      qed
      show ?thesis
        unfolding step using ih(1) split elems by simp
    next
      case zero: False
      then have p: "p = 0" by simp
      let ?rec = "distributeLoop sel push j p (i + 1) idx acts"
      have nz: "\<not> 0 < min p (length ?src - idx)"
        using p by simp
      have step: "distributeLoop sel push j p i idx acts = ?rec"
        using ij nz by (simp add: distributeLoop_zero)
      from "1.IH"(2) [OF ij refl refl nz] pushNil ij "1.prems"(3) inv p
      have ih: "snd ?rec = idx"
        "\<forall>k < length acts.
             fst ?rec ! k =
               (if i + 1 \<le> k \<and> k < j then push (acts ! k) (slice idx idx ?src) else acts ! k)"
        by simp_all
      have "slice idx idx ?src = []"
        by (simp add: slice_def)
      with ih(2) pushNil have "\<forall>k < length acts. fst ?rec ! k = acts ! k"
        by simp
      with ih(1) p pushNil show ?thesis
        unfolding step by (simp add: slice_def)
    qed
  qed
qed

text \<open>
  A gap day receives, for each kind, a slice of the source day's items as tagged
  copies; the source day keeps its items and gets the marker when a share is positive.
\<close>

lemma copies_to_gap_day:
  assumes "i < j" "j < length acts" "i \<le> k" "k < j"
  shows "distributeWorkAcrossGap acts i j (j - i) ! k =
     (let src = gitlabActivity (acts ! j);
          cp = length (commits src) div (j - i + 1);
          mp = length (mergeRequests src) div (j - i + 1);
          ip = length (issues src) div (j - i + 1)
      in pushIssues
           (pushMergeRequests
              (pushCommits (acts ! k) (slice ((k - i) * cp) ((k - i) * cp + cp) (commits src)))
              (slice ((k - i) * mp) ((k - i) * mp + mp) (mergeRequests src)))
           (slice ((k - i) * ip) ((k - i) * ip + ip) (issues src)))"
proof -
  let ?g = "j - i"
  let ?src = "gitlabActivity (acts ! j)"
  let ?cp = "length (commits ?src) div (?g + 1)"
  let ?mp = "length (mergeRequests ?src) div (?g + 1)"
  let ?ip = "length (issues ?src) div (?g + 1)"
  let ?l1 = "distributeLoop commits pushCommits j ?cp i 0 acts"
  let ?l2 = "distributeLoop mergeRequests pushMergeRequests j ?mp i 0 (fst ?l1)"
  let ?l3 = "distributeLoop issues pushIssues j ?ip i 0 (fst ?l2)"
  have k: "k < length acts" and ij: "i \<le> j" using assms by simp_all
  have s1: "fst ?l1 ! j = acts ! j" by (rule nth_source_distributeLoop)
  have s2: "fst ?l2 ! j = acts ! j" by (simp add: nth_source_distributeLoop)
  have f1: "0 + (j - i) * ?cp \<le> length (commits (gitlabActivity (acts ! j)))"
    using share_fits [of ?g "length (commits ?src)"] by simp
  have f2: "0 + (j - i) * ?mp \<le> length (mergeRequests (gitlabActivity (fst ?l1 ! j)))"
    using share_fits [of ?g "length (mergeRequests ?src)"] s1 by simp
  have f3: "0 + (j - i) * ?ip \<le> length (issues (gitlabActivity (fst ?l2 ! j)))"
    using share_fits [of ?g "length (issues ?src)"] s2 by simp
  have j1: "j < length (fst ?l1)" and j2: "j < length (fst ?l2)"
    and k1: "k < length (fst ?l1)" and k2: "k < length (fst ?l2)"
    using assms(2) k by (simp_all add: length_distributeLoop)
  have e1: "fst ?l1 ! k = pushCommits (acts ! k) (slice ((k - i) * ?cp) ((k - i) * ?cp + ?cp) (commits ?src))"
    using exact_distributeLoop [where sel = commits and push = pushCommits,
        OF push_nothing_all(1) ij assms(2) f1] k assms(3,4)
    by simp
  have e2: "fst ?l2 ! k = pushMergeRequests (fst ?l1 ! k)
      (slice ((k - i) * ?mp) ((k - i) * ?mp + ?mp) (mergeRequests ?src))"
    using exact_distributeLoop [where sel = mergeRequests and push = pushMergeRequests,
        OF push_nothing_all(2) ij j1 f2] k1 assms(3,4) s1
    by simp
  have e3: "fst ?l3 ! k = pushIssues (fst ?l2 ! k)
      (slice ((k - i) * ?ip) ((k - i) * ?ip + ?ip) (issues ?src))"
    using exact_distributeLoop [where sel = issues and push = pushIssues,
        OF push_nothing_all(3) ij j2 f3] k2 assms(3,4) s2
    by simp
  have whole: "distributeWorkAcrossGap acts i j ?g =
      (if snd ?l1 > 0 \<or> snd ?l2 > 0 \<or> snd ?l3 > 0
       then (fst ?l3)[j := unshiftCommit (distributionNote ?g) (fst ?l3 ! j)] else fst ?l3)"
    by (simp add: distributeWorkAcrossGap_loops Let_def)
  have "distributeWorkAcrossGap acts i j ?g ! k = fst ?l3 ! k"
    unfolding whole using assms(4) by simp
  also have "\<dots> = pushIssues
           (pushMergeRequests
              (pushCommits (acts ! k) (slice ((k - i) * ?cp) ((k - i) * ?cp + ?cp) (commits ?src)))
              (slice ((k - i) * ?mp) ((k - i) * ?mp + ?mp) (mergeRequests ?src)))
           (slice ((k - i) * ?ip) ((k - i) * ?ip + ?ip) (issues ?src))"
    unfolding e3 e2 e1 ..
  finally show ?thesis
    unfolding Let_def .
qed

lemma source_day_keeps_items:
  assumes "i < j" "j < length acts"
  shows "distributeWorkAcrossGap acts i j (j - i) ! j =
     (let src = gitlabActivity (acts ! j)
      in if 0 < length (commits src) div (j - i + 1) \<or>
            0 < length (mergeRequests src) div (j - i + 1) \<or>
            0 < length (issues src) div (j - i + 1)
         then unshiftCommit (distributionNote (j - i)) (acts ! j)
         else acts ! j)"
proof -
  let ?g = "j - i"
  let ?src = "gitlabActivity (acts ! j)"
  let ?cp = "length (commits ?src) div (?g + 1)"
  let ?mp = "length (mergeRequests ?src) div (?g + 1)"
  let ?ip = "length (issues ?src) div (?g + 1)"
  let ?l1 = "distributeLoop commits pushCommits j ?cp i 0 acts"
  let ?l2 = "distributeLoop mergeRequests pushMergeRequests j ?mp i 0 (fst ?l1)"
  let ?l3 = "distributeLoop issues pushIssues j ?ip i 0 (fst ?l2)"
  have ij: "i \<le> j" using assms by simp
  have s1: "fst ?l1 ! j = acts ! j" by (rule nth_source_distributeLoop)
  have s2: "fst ?l2 ! j = acts ! j" by (simp add: nth_source_distributeLoop)
  have s3: "fst ?l3 ! j = acts ! j" by (simp add: nth_source_distributeLoop)
  have f1: "0 + (j - i) * ?cp \<le> length (commits (gitlabActivity (acts ! j)))"
    using share_fits [of ?g "length (commits ?src)"] by simp
  have f2: "0 + (j - i) * ?mp \<le> length (mergeRequests (gitlabActivity (fst ?l1 ! j)))"
    using share_fits [of ?g "length (mergeRequests ?src)"] s1 by simp
  have f3: "0 + (j - i) * ?ip \<le> length (issues (gitlabActivity (fst ?l2 ! j)))"
    using share_fits [of ?g "length (issues ?src)"] s2 by simp
  have j1: "j < length (fst ?l1)" and j2: "j < length (fst ?l2)" and j3: "j < length (fst ?l3)"
    using assms(2) by (simp_all add: length_distributeLoop)
  have n1: "snd ?l1 = (j - i) * ?cp"
    using exact_distributeLoop [where sel = commits and push = pushCommits,
        OF push_nothing_all(1) ij assms(2) f1] by simp
  have n2: "snd ?l2 = (j - i) * ?mp"
    using exact_distributeLoop [where sel = mergeRequests and push = pushMergeRequests,
        OF push_nothing_all(2) ij j1 f2] by simp
  have n3: "snd ?l3 = (j - i) * ?ip"
    using exact_distributeLoop [where sel = issues and push = pushIssues,
        OF push_nothing_all(3) ij j2 f3] by simp
  have gap: "0 < j - i" using assms(1) by simp
  have whole: "distributeWorkAcrossGap acts i j ?g =
      (if snd ?l1 > 0 \<or> snd ?l2 > 0 \<or> snd ?l3 > 0
       then (fst ?l3)[j := unshiftCommit (distributionNote ?g) (fst ?l3 ! j)] else fst ?l3)"
    by (simp add: distributeWorkAcrossGap_loops Let_def)
  have cond: "(snd ?l1 > 0 \<or> snd ?l2 > 0 \<or> snd ?l3 > 0) \<longleftrightarrow> (0 < ?cp \<or> 0 < ?mp \<or> 0 < ?ip)"
    unfolding n1 n2 n3 using gap by simp
  define c where "c \<longleftrightarrow> 0 < ?cp \<or> 0 < ?mp \<or> 0 < ?ip"
  define xs where "xs = fst ?l3"
  have whole': "distributeWorkAcrossGap acts i j ?g =
      (if c then xs[j := unshiftCommit (distributionNote ?g) (xs ! j)] else xs)"
    unfolding c_def xs_def whole cond ..
  have j3': "j < length xs" and s3': "xs ! j = acts ! j"
    unfolding xs_def using j3 s3 by simp_all
  have "distributeWorkAcrossGap acts i j ?g ! j =
      (if c then unshiftCommit (distributionNote ?g) (acts ! j) else acts ! j)"
    unfolding whole' using j3' s3' by simp
  then show ?thesis
    unfolding c_def Let_def .
qed

subsection \<open>A source day with too few items\<close>





section \<open>The distributor: claims\<close>

lemma distributeActivities_scan:
  "distributeActivities acts =
     (let r = distributeScan (sort_key date acts) 0 0 0
      in \<lparr>activities = fst r,
          distributionInfo =
            \<lparr>daysWithGaps = fst (snd r), daysDistributed = snd (snd r),
             message_info = (if snd (snd r) > 0 then distributedMessage (fst (snd r)) else [])\<rparr>\<rparr>)"
  by (simp add: distributeActivities_def Let_def split: prod.splits)

lemma distributeActivitiesIntelligent_scan:
  "distributeActivitiesIntelligent acts =
     (let r = intelligentScan (sort_key date acts) 0 0 0
      in \<lparr>activities = fst r,
          distributionInfo =
            \<lparr>daysWithGaps = fst (snd r), daysDistributed = snd (snd r),
             message_info = (if snd (snd r) > 0 then phasedMessage (fst (snd r)) else [])\<rparr>\<rparr>)"
  by (simp add: distributeActivitiesIntelligent_def Let_def split: prod.splits)

lemma all_active_noGap: "(\<forall>day \<in> set acts. hasAnyActivity day) \<Longrightarrow> noGapFrom i acts"
  by (auto simp: noGapFrom_def)

lemma distributeActivities_full:
  assumes "sorted (map date acts)" "\<forall>day \<in> set acts. hasAnyActivity day"
  shows "distributeActivities acts = \<lparr>activities = acts, distributionInfo = noInfo\<rparr>"
proof -
  have "sort_key date acts = acts"
    using assms(1) by (rule sort_key_id_if_sorted)
  moreover have "distributeScan acts 0 0 0 = (acts, 0, 0)"
    using assms(2) by (intro distributeScan_noGap all_active_noGap)
  ultimately show ?thesis
    by (simp add: distributeActivities_scan noInfo_def)
qed

text \<open>
  C8. On an ascending list of days that all have activity, \<open>distributeActivities\<close>
  returns the list as it is, with zero counters and an empty message; and whenever its
  result has no empty day left, running it again on that result changes nothing.
\<close>

theorem full_days_unchanged:
  "(sorted (map date acts) \<and> (\<forall>day \<in> set acts. hasAnyActivity day) \<longrightarrow>
      distributeActivities acts = \<lparr>activities = acts, distributionInfo = noInfo\<rparr>) \<and>
   ((\<forall>day \<in> set (activities (distributeActivities acts')). hasAnyActivity day) \<longrightarrow>
      distributeActivities (activities (distributeActivities acts')) =
        \<lparr>activities = activities (distributeActivities acts'), distributionInfo = noInfo\<rparr>)"
proof -
  let ?r = "activities (distributeActivities acts')"
  have "map date ?r = map date (sort_key date acts')"
    by (simp add: distributeActivities_scan Let_def)
  then have "sorted (map date ?r)"
    by simp
  then show ?thesis
    using distributeActivities_full by blast
qed

theorem full_days_unchanged_witness:
  "sorted (map date sampleFullDays) \<and> list_all hasAnyActivity sampleFullDays \<and>
   distributeActivities sampleFullDays = \<lparr>activities = sampleFullDays, distributionInfo = noInfo\<rparr> \<and>
   list_all hasAnyActivity (activities (distributeActivities sampleGapDays)) \<and>
   activities (distributeActivities sampleGapDays) \<noteq> sampleGapDays \<and>
   distributeActivities (activities (distributeActivities sampleGapDays)) =
     \<lparr>activities = activities (distributeActivities sampleGapDays), distributionInfo = noInfo\<rparr>"
proof -
  have h1: "sorted (map date sampleFullDays) \<and> list_all hasAnyActivity sampleFullDays"
    by code_simp
  have h2: "list_all hasAnyActivity (activities (distributeActivities sampleGapDays))"
    by code_simp
  have h3: "activities (distributeActivities sampleGapDays) \<noteq> sampleGapDays"
    by code_simp
  show ?thesis
    using full_days_unchanged [of sampleFullDays sampleGapDays] h1 h2 h3
    by (simp add: list_all_iff)
qed

text \<open>
  C9. When the sorted input ends in days without activity (all days from position \<open>n\<close>
  on), both modes return these days as they were: a trailing gap is never backfilled.
\<close>

theorem trailing_gap_untouched:
  assumes "\<forall>day \<in> set (drop n (sort_key date acts)). \<not> hasAnyActivity day"
  shows "drop n (activities (distributeActivities acts)) = drop n (sort_key date acts) \<and>
         drop n (activities (distributeActivitiesIntelligent acts)) = drop n (sort_key date acts)"
  using assms
  by (simp add: distributeActivities_scan distributeActivitiesIntelligent_scan Let_def
      suffix_distributeScan suffix_intelligentScan)

theorem trailing_gap_untouched_witness:
  "list_all (\<lambda>day. \<not> hasAnyActivity day) (drop 2 (sort_key date sampleTrailingDays)) \<and>
   drop 2 (activities (distributeActivities sampleTrailingDays)) = [emptyDay (msDay 2), emptyDay (msDay 3)] \<and>
   drop 2 (activities (distributeActivitiesIntelligent sampleTrailingDays))
     = [emptyDay (msDay 2), emptyDay (msDay 3)]"
proof -
  have h: "list_all (\<lambda>day. \<not> hasAnyActivity day) (drop 2 (sort_key date sampleTrailingDays))"
    by code_simp
  then have h': "\<forall>day \<in> set (drop 2 (sort_key date sampleTrailingDays)). \<not> hasAnyActivity day"
    by (simp add: list_all_iff)
  have s: "drop 2 (sort_key date sampleTrailingDays) = [emptyDay (msDay 2), emptyDay (msDay 3)]"
    by code_simp
  show ?thesis
    using trailing_gap_untouched [OF h'] h s by simp
qed

lemma message_distributeActivities:
  "message_info (distributionInfo (distributeActivities acts)) \<noteq> [] \<longleftrightarrow>
     gapExists (sort_key date acts)"
proof (cases "noGapFrom 0 (sort_key date acts)")
  case True
  then show ?thesis
    by (simp add: distributeActivities_scan Let_def distributeScan_noGap gapExists_iff)
next
  case False
  then have "0 < snd (snd (distributeScan (sort_key date acts) 0 0 0))"
    by (rule gap_counted_distributeScan)
  with False show ?thesis
    by (simp add: distributeActivities_scan Let_def gapExists_iff distributedMessage_def)
qed

lemma message_distributeActivitiesIntelligent:
  "message_info (distributionInfo (distributeActivitiesIntelligent acts)) \<noteq> [] \<longleftrightarrow>
     gapExists (sort_key date acts)"
proof (cases "noGapFrom 0 (sort_key date acts)")
  case True
  then show ?thesis
    by (simp add: distributeActivitiesIntelligent_scan Let_def intelligentScan_noGap gapExists_iff)
next
  case False
  then have "0 < snd (snd (intelligentScan (sort_key date acts) 0 0 0))"
    by (rule gap_counted_intelligentScan)
  with False show ?thesis
    by (simp add: distributeActivitiesIntelligent_scan Let_def gapExists_iff phasedMessage_def)
qed

lemma changed_distributeActivities:
  "activities (distributeActivities acts) \<noteq> sort_key date acts \<Longrightarrow> gapExists (sort_key date acts)"
  by (rule ccontr) (simp add: gapExists_iff distributeActivities_scan Let_def distributeScan_noGap)

lemma changed_distributeActivitiesIntelligent:
  "activities (distributeActivitiesIntelligent acts) \<noteq> sort_key date acts \<longleftrightarrow>
     gapExists (sort_key date acts)"
proof (cases "noGapFrom 0 (sort_key date acts)")
  case True
  then show ?thesis
    by (simp add: distributeActivitiesIntelligent_scan Let_def intelligentScan_noGap gapExists_iff)
next
  case False
  then have "fst (intelligentScan (sort_key date acts) 0 0 0) \<noteq> sort_key date acts"
    by (rule gap_changes_intelligentScan)
  with False show ?thesis
    by (simp add: distributeActivitiesIntelligent_scan Let_def gapExists_iff)
qed

lemma message_texts:
  "CHR 10 \<notin> set (distributedMessage g)" "CHR 10 \<notin> set (phasedMessage g)"
  "\<exists>pre post. distributedMessage g = pre @ ''[Distributed]'' @ post"
  "\<exists>pre post. phasedMessage g = pre @ ''[Phase: X]'' @ post"
proof -
  show "CHR 10 \<notin> set (distributedMessage g)" "CHR 10 \<notin> set (phasedMessage g)"
    using showNat_no_newline [of g] by (simp_all add: distributedMessage_def phasedMessage_def)
  have "distributedMessage g =
      (''Note: '' @ showNat g @ '' day(s) had no recorded activity. Work from subsequent days was distributed proportionally. Distributed entries are marked with '')
        @ ''[Distributed]'' @ ''.''"
    by (simp add: distributedMessage_def)
  then show "\<exists>pre post. distributedMessage g = pre @ ''[Distributed]'' @ post"
    by blast
  have "phasedMessage g =
      (''Note: '' @ showNat g @ '' day(s) had no recorded activity. Work phases were inferred and distributed. Entries are marked with '')
        @ ''[Phase: X]'' @ ''.''"
    by (simp add: phasedMessage_def)
  then show "\<exists>pre post. phasedMessage g = pre @ ''[Phase: X]'' @ post"
    by blast
qed

text \<open>
  C6, as stated, fails in proportional mode: with one empty day before a day with a
  single commit the share per day is \<open>floor (1 / 2) = 0\<close>, so no item is relocated and
  no entry is added, and the message is set all the same.
\<close>

theorem message_without_distribution_counterexample:
  "activities (distributeActivities [emptyDay (msDay 0), commitDay (msDay 1) [''parser'']])
     = [emptyDay (msDay 0), commitDay (msDay 1) [''parser'']] \<and>
   message_info (distributionInfo
     (distributeActivities [emptyDay (msDay 0), commitDay (msDay 1) [''parser'']])) \<noteq> []"
  by code_simp

text \<open>
  C6, amended. In both modes the message is non-empty exactly when the sorted input has
  a gap (a day without activity with a day with activity somewhere after it), that is
  when the scan has processed at least one gap. A result that differs from the sorted
  input always comes with a message; in phased mode the converse holds too, since every
  processed gap adds a synthetic entry. A non-empty message is one line and names its
  convention, \<open>[Distributed]\<close> or \<open>[Phase: X]\<close>.
\<close>

theorem summary_message_iff_gap:
  "(message_info (distributionInfo (distributeActivities acts)) \<noteq> [] \<longleftrightarrow>
      gapExists (sort_key date acts)) \<and>
   (message_info (distributionInfo (distributeActivitiesIntelligent acts)) \<noteq> [] \<longleftrightarrow>
      gapExists (sort_key date acts)) \<and>
   (activities (distributeActivities acts) \<noteq> sort_key date acts \<longrightarrow>
      message_info (distributionInfo (distributeActivities acts)) \<noteq> []) \<and>
   (activities (distributeActivitiesIntelligent acts) \<noteq> sort_key date acts \<longleftrightarrow>
      message_info (distributionInfo (distributeActivitiesIntelligent acts)) \<noteq> []) \<and>
   (gapExists (sort_key date acts) \<longrightarrow>
      CHR 10 \<notin> set (message_info (distributionInfo (distributeActivities acts))) \<and>
      (\<exists>pre post. message_info (distributionInfo (distributeActivities acts))
                     = pre @ ''[Distributed]'' @ post) \<and>
      CHR 10 \<notin> set (message_info (distributionInfo (distributeActivitiesIntelligent acts))) \<and>
      (\<exists>pre post. message_info (distributionInfo (distributeActivitiesIntelligent acts))
                     = pre @ ''[Phase: X]'' @ post))"
proof -
  have texts: "CHR 10 \<notin> set (message_info (distributionInfo (distributeActivities acts))) \<and>
      (\<exists>pre post. message_info (distributionInfo (distributeActivities acts))
                     = pre @ ''[Distributed]'' @ post) \<and>
      CHR 10 \<notin> set (message_info (distributionInfo (distributeActivitiesIntelligent acts))) \<and>
      (\<exists>pre post. message_info (distributionInfo (distributeActivitiesIntelligent acts))
                     = pre @ ''[Phase: X]'' @ post)"
    if gap: "gapExists (sort_key date acts)"
  proof -
    from gap have ng: "\<not> noGapFrom 0 (sort_key date acts)"
      by (simp add: gapExists_iff)
    have d1: "0 < snd (snd (distributeScan (sort_key date acts) 0 0 0))"
      using ng by (rule gap_counted_distributeScan)
    have d2: "0 < snd (snd (intelligentScan (sort_key date acts) 0 0 0))"
      using ng by (rule gap_counted_intelligentScan)
    have m1: "message_info (distributionInfo (distributeActivities acts))
        = distributedMessage (fst (snd (distributeScan (sort_key date acts) 0 0 0)))"
      using d1 by (simp add: distributeActivities_scan Let_def)
    have m2: "message_info (distributionInfo (distributeActivitiesIntelligent acts))
        = phasedMessage (fst (snd (intelligentScan (sort_key date acts) 0 0 0)))"
      using d2 by (simp add: distributeActivitiesIntelligent_scan Let_def)
    show ?thesis
      unfolding m1 m2 using message_texts by blast
  qed
  show ?thesis
    using message_distributeActivities [of acts] message_distributeActivitiesIntelligent [of acts]
      changed_distributeActivities [of acts] changed_distributeActivitiesIntelligent [of acts]
      texts
    by blast
qed

theorem summary_message_iff_gap_witness:
  "gapExists (sort_key date sampleGapDays) \<and>
   message_info (distributionInfo (distributeActivities sampleGapDays)) \<noteq> [] \<and>
   message_info (distributionInfo (distributeActivitiesIntelligent sampleGapDays)) \<noteq> [] \<and>
   activities (distributeActivitiesIntelligent sampleGapDays) \<noteq> sort_key date sampleGapDays \<and>
   CHR 10 \<notin> set (message_info (distributionInfo (distributeActivities sampleGapDays))) \<and>
   \<not> gapExists (sort_key date sampleFullDays) \<and>
   message_info (distributionInfo (distributeActivities sampleFullDays)) = []"
proof -
  have g: "gapExists (sort_key date sampleGapDays)"
    by code_simp
  have f: "\<not> gapExists (sort_key date sampleFullDays)"
    by code_simp
  show ?thesis
    using summary_message_iff_gap [of sampleGapDays] summary_message_iff_gap [of sampleFullDays] g f
    by blast
qed

lemma source_after_distribution:
  assumes "j < length acts"
  shows "distributeWorkAcrossGap acts i j g ! j = acts ! j \<or>
         distributeWorkAcrossGap acts i j g ! j = unshiftCommit (distributionNote g) (acts ! j)"
  using assms
  by (simp add: distributeWorkAcrossGap_loops Let_def nth_source_distributeLoop
      length_distributeLoop)

text \<open>
  C1 fails on the code: the gap days receive tagged copies, and the source day keeps
  every one of its items. With two empty days before a day of three commits, each empty
  day receives one commit and the source day still holds its three commits after the
  marker: five commits without the marker, not three.
\<close>

theorem distributed_commits_stay_on_source:
  "map (\<lambda>day. length (commits (gitlabActivity day))) (activities (distributeActivities sampleBurst))
     = [1, 1, 4] \<and>
   commits (gitlabActivity (activities (distributeActivities sampleBurst) ! 2))
     = distributionNote 2 # map sampleCommit [''parser'', ''tests'', ''docs'']"
  by code_simp




section \<open>The orchestrator: supporting lemmas\<close>

subsection \<open>Cache operations, by what they read and change\<close>

lemma get_results:
  "fst (getGitLabActivity now d c) = freshOf now (cacheTTL c) (gitlab (cache c) (getDateKey d))"
  "fst (getGoogleCalendarEvents now d c)
     = freshOf now (cacheTTL c) (googleCalendar (cache c) (getDateKey d))"
  "fst (getOutlookCalendarEvents now d c)
     = freshOf now (cacheTTL c) (outlookCalendar (cache c) (getDateKey d))"
  by (simp_all add: getGitLabActivity_def getGoogleCalendarEvents_def getOutlookCalendarEvents_def
      freshOf_def isExpired_def Let_def split: option.splits)

lemma get_gitlab_frame:
  "cacheTTL (snd (getGitLabActivity now d c)) = cacheTTL c"
  "writable (snd (getGitLabActivity now d c)) = writable c"
  "googleCalendar (cache (snd (getGitLabActivity now d c))) = googleCalendar (cache c)"
  "outlookCalendar (cache (snd (getGitLabActivity now d c))) = outlookCalendar (cache c)"
  "gitlab (cache (snd (getGitLabActivity now d c))) key =
     (if key = getDateKey d then keepFresh now (cacheTTL c) (gitlab (cache c) key)
      else gitlab (cache c) key)"
  by (simp_all add: getGitLabActivity_def keepFresh_def isExpired_def Let_def split: option.splits)

lemma get_google_frame:
  "cacheTTL (snd (getGoogleCalendarEvents now d c)) = cacheTTL c"
  "writable (snd (getGoogleCalendarEvents now d c)) = writable c"
  "gitlab (cache (snd (getGoogleCalendarEvents now d c))) = gitlab (cache c)"
  "outlookCalendar (cache (snd (getGoogleCalendarEvents now d c))) = outlookCalendar (cache c)"
  "googleCalendar (cache (snd (getGoogleCalendarEvents now d c))) key =
     (if key = getDateKey d then keepFresh now (cacheTTL c) (googleCalendar (cache c) key)
      else googleCalendar (cache c) key)"
  by (simp_all add: getGoogleCalendarEvents_def keepFresh_def isExpired_def Let_def
      split: option.splits)

lemma get_outlook_frame:
  "cacheTTL (snd (getOutlookCalendarEvents now d c)) = cacheTTL c"
  "writable (snd (getOutlookCalendarEvents now d c)) = writable c"
  "gitlab (cache (snd (getOutlookCalendarEvents now d c))) = gitlab (cache c)"
  "googleCalendar (cache (snd (getOutlookCalendarEvents now d c))) = googleCalendar (cache c)"
  "outlookCalendar (cache (snd (getOutlookCalendarEvents now d c))) key =
     (if key = getDateKey d then keepFresh now (cacheTTL c) (outlookCalendar (cache c) key)
      else outlookCalendar (cache c) key)"
  by (simp_all add: getOutlookCalendarEvents_def keepFresh_def isExpired_def Let_def
      split: option.splits)

lemma set_results:
  "fst (setGitLabActivity now d a c) = (if writable c then Inr () else Inl WriteError)"
  "fst (setGoogleCalendarEvents now d evs c) = (if writable c then Inr () else Inl WriteError)"
  "fst (setOutlookCalendarEvents now d evs c) = (if writable c then Inr () else Inl WriteError)"
  by (simp_all add: setGitLabActivity_def setGoogleCalendarEvents_def
      setOutlookCalendarEvents_def save_def Let_def)

lemma set_gitlab_frame:
  "cacheTTL (snd (setGitLabActivity now d a c)) = cacheTTL c"
  "writable (snd (setGitLabActivity now d a c)) = writable c"
  "googleCalendar (cache (snd (setGitLabActivity now d a c))) = googleCalendar (cache c)"
  "outlookCalendar (cache (snd (setGitLabActivity now d a c))) = outlookCalendar (cache c)"
  "key \<noteq> getDateKey d \<Longrightarrow> gitlab (cache (snd (setGitLabActivity now d a c))) key = gitlab (cache c) key"
  by (simp_all add: setGitLabActivity_def save_def Let_def)

lemma set_google_frame:
  "cacheTTL (snd (setGoogleCalendarEvents now d evs c)) = cacheTTL c"
  "writable (snd (setGoogleCalendarEvents now d evs c)) = writable c"
  "gitlab (cache (snd (setGoogleCalendarEvents now d evs c))) = gitlab (cache c)"
  "outlookCalendar (cache (snd (setGoogleCalendarEvents now d evs c))) = outlookCalendar (cache c)"
  "key \<noteq> getDateKey d \<Longrightarrow>
     googleCalendar (cache (snd (setGoogleCalendarEvents now d evs c))) key = googleCalendar (cache c) key"
  by (simp_all add: setGoogleCalendarEvents_def save_def Let_def)

lemma set_outlook_frame:
  "cacheTTL (snd (setOutlookCalendarEvents now d evs c)) = cacheTTL c"
  "writable (snd (setOutlookCalendarEvents now d evs c)) = writable c"
  "gitlab (cache (snd (setOutlookCalendarEvents now d evs c))) = gitlab (cache c)"
  "googleCalendar (cache (snd (setOutlookCalendarEvents now d evs c))) = googleCalendar (cache c)"
  "key \<noteq> getDateKey d \<Longrightarrow>
     outlookCalendar (cache (snd (setOutlookCalendarEvents now d evs c))) key
       = outlookCalendar (cache c) key"
  by (simp_all add: setOutlookCalendarEvents_def save_def Let_def)

lemmas cache_frames =
  get_gitlab_frame get_google_frame get_outlook_frame
  set_gitlab_frame set_google_frame set_outlook_frame

lemma activityCache_sendProgress [simp]: "activityCache (sendProgress m s) = activityCache s"
  by (simp add: sendProgress_def)

subsection \<open>The tasks of a day\<close>

lemma lookupGitActivity_result:
  "fst (lookupGitActivity src tz now dateStr force s) =
     (if force then None
      else freshOf now (cacheTTL (activityCache s))
             (gitlab (cache (activityCache s)) (getDateKey (parseDateStr tz dateStr))))"
  by (simp add: lookupGitActivity_def Let_def get_results [symmetric] split: prod.splits option.splits)

lemma lookupGitActivity_frame:
  "cacheTTL (activityCache (snd (lookupGitActivity src tz now dateStr force s)))
     = cacheTTL (activityCache s)"
  "writable (activityCache (snd (lookupGitActivity src tz now dateStr force s)))
     = writable (activityCache s)"
  "googleCalendar (cache (activityCache (snd (lookupGitActivity src tz now dateStr force s))))
     = googleCalendar (cache (activityCache s))"
  "outlookCalendar (cache (activityCache (snd (lookupGitActivity src tz now dateStr force s))))
     = outlookCalendar (cache (activityCache s))"
  "gitlab (cache (activityCache (snd (lookupGitActivity src tz now dateStr force s)))) key =
     (if \<not> force \<and> key = getDateKey (parseDateStr tz dateStr)
      then keepFresh now (cacheTTL (activityCache s)) (gitlab (cache (activityCache s)) key)
      else gitlab (cache (activityCache s)) key)"
proof -
  let ?c = "activityCache s" and ?d = "parseDateStr tz dateStr"
  have st: "activityCache (snd (lookupGitActivity src tz now dateStr force s))
      = (if force then ?c else snd (getGitLabActivity now ?d ?c))"
    by (simp add: lookupGitActivity_def Let_def split: prod.splits option.splits)
  show "cacheTTL (activityCache (snd (lookupGitActivity src tz now dateStr force s)))
     = cacheTTL (activityCache s)"
    "writable (activityCache (snd (lookupGitActivity src tz now dateStr force s)))
     = writable (activityCache s)"
    "googleCalendar (cache (activityCache (snd (lookupGitActivity src tz now dateStr force s))))
     = googleCalendar (cache (activityCache s))"
    "outlookCalendar (cache (activityCache (snd (lookupGitActivity src tz now dateStr force s))))
     = outlookCalendar (cache (activityCache s))"
    "gitlab (cache (activityCache (snd (lookupGitActivity src tz now dateStr force s)))) key =
     (if \<not> force \<and> key = getDateKey (parseDateStr tz dateStr)
      then keepFresh now (cacheTTL (activityCache s)) (gitlab (cache (activityCache s)) key)
      else gitlab (cache (activityCache s)) key)"
    unfolding st by (simp_all add: get_gitlab_frame)
qed

lemma resumeGitActivity_result:
  "fst (resumeGitActivity src fetch tz now dateStr cached s) =
     (case cached of
        Some a \<Rightarrow> Inr (a, True)
      | None \<Rightarrow>
          (case fetch dateStr of
             Inl e \<Rightarrow> Inl e
           | Inr act \<Rightarrow> if writable (activityCache s) then Inr (act, False) else Inl WriteError))"
  by (simp add: resumeGitActivity_def setGitLabActivity_def save_def Let_def
      split: option.splits sum.splits)

lemma resumeGitActivity_frame:
  "cacheTTL (activityCache (snd (resumeGitActivity src fetch tz now dateStr cached s)))
     = cacheTTL (activityCache s)"
  "writable (activityCache (snd (resumeGitActivity src fetch tz now dateStr cached s)))
     = writable (activityCache s)"
  "googleCalendar (cache (activityCache (snd (resumeGitActivity src fetch tz now dateStr cached s))))
     = googleCalendar (cache (activityCache s))"
  "outlookCalendar (cache (activityCache (snd (resumeGitActivity src fetch tz now dateStr cached s))))
     = outlookCalendar (cache (activityCache s))"
  "key \<noteq> getDateKey (parseDateStr tz dateStr) \<Longrightarrow>
     gitlab (cache (activityCache (snd (resumeGitActivity src fetch tz now dateStr cached s)))) key
       = gitlab (cache (activityCache s)) key"
  by (simp_all add: resumeGitActivity_def setGitLabActivity_def save_def Let_def
      split: option.splits sum.splits)
lemma tryGoogleCalendar_result:
  "fst (tryGoogleCalendar env now d dateStr current s) =
     (case googleCalendar_getEventsForDate env dateStr of Inl e \<Rightarrow> current | Inr evs \<Rightarrow> evs)"
  by (simp add: tryGoogleCalendar_def Let_def split: sum.splits prod.splits)

lemma tryGoogleCalendar_frame:
  "cacheTTL (activityCache (snd (tryGoogleCalendar env now d dateStr current s)))
     = cacheTTL (activityCache s)"
  "writable (activityCache (snd (tryGoogleCalendar env now d dateStr current s)))
     = writable (activityCache s)"
  "gitlab (cache (activityCache (snd (tryGoogleCalendar env now d dateStr current s))))
     = gitlab (cache (activityCache s))"
  "outlookCalendar (cache (activityCache (snd (tryGoogleCalendar env now d dateStr current s))))
     = outlookCalendar (cache (activityCache s))"
  "key \<noteq> getDateKey d \<Longrightarrow>
     googleCalendar (cache (activityCache (snd (tryGoogleCalendar env now d dateStr current s)))) key
       = googleCalendar (cache (activityCache s)) key"
  by (simp_all add: tryGoogleCalendar_def setGoogleCalendarEvents_def save_def Let_def
      split: sum.splits)

lemma tryOutlookCalendar_result:
  "fst (tryOutlookCalendar env now d dateStr current s) =
     (case outlookCalendar_getEventsForDate env dateStr of Inl e \<Rightarrow> current | Inr evs \<Rightarrow> evs)"
  by (simp add: tryOutlookCalendar_def Let_def split: sum.splits prod.splits)

lemma tryOutlookCalendar_frame:
  "cacheTTL (activityCache (snd (tryOutlookCalendar env now d dateStr current s)))
     = cacheTTL (activityCache s)"
  "writable (activityCache (snd (tryOutlookCalendar env now d dateStr current s)))
     = writable (activityCache s)"
  "gitlab (cache (activityCache (snd (tryOutlookCalendar env now d dateStr current s))))
     = gitlab (cache (activityCache s))"
  "googleCalendar (cache (activityCache (snd (tryOutlookCalendar env now d dateStr current s))))
     = googleCalendar (cache (activityCache s))"
  "key \<noteq> getDateKey d \<Longrightarrow>
     outlookCalendar (cache (activityCache (snd (tryOutlookCalendar env now d dateStr current s)))) key
       = outlookCalendar (cache (activityCache s)) key"
  by (simp_all add: tryOutlookCalendar_def setOutlookCalendarEvents_def save_def Let_def
      split: sum.splits)

lemma outlookBlock_result:
  "fst (outlookBlock env now d dateStr force current s) =
     Inr (case (if \<not> force
                then freshOf now (cacheTTL (activityCache s))
                       (outlookCalendar (cache (activityCache s)) (getDateKey d))
                else None) of
            Some cached \<Rightarrow> (cached, True)
          | None \<Rightarrow> ((case outlookCalendar_getEventsForDate env dateStr of
                         Inl e \<Rightarrow> current | Inr evs \<Rightarrow> evs), False))"
  by (cases force)
     (simp_all add: outlookBlock_def case_prod_unfold get_results tryOutlookCalendar_result
        split: option.splits)

lemma outlookBlock_frame:
  "cacheTTL (activityCache (snd (outlookBlock env now d dateStr force current s)))
     = cacheTTL (activityCache s)"
  "writable (activityCache (snd (outlookBlock env now d dateStr force current s)))
     = writable (activityCache s)"
  "gitlab (cache (activityCache (snd (outlookBlock env now d dateStr force current s))))
     = gitlab (cache (activityCache s))"
  "googleCalendar (cache (activityCache (snd (outlookBlock env now d dateStr force current s))))
     = googleCalendar (cache (activityCache s))"
  "key \<noteq> getDateKey d \<Longrightarrow>
     outlookCalendar (cache (activityCache (snd (outlookBlock env now d dateStr force current s)))) key
       = outlookCalendar (cache (activityCache s)) key"
proof -
  let ?c = "activityCache s"
  let ?s1 = "if \<not> force then s\<lparr>activityCache := snd (getOutlookCalendarEvents now d ?c)\<rparr> else s"
  have st: "activityCache (snd (outlookBlock env now d dateStr force current s)) =
      (case (if \<not> force then fst (getOutlookCalendarEvents now d ?c) else None) of
         Some cached \<Rightarrow> activityCache ?s1
       | None \<Rightarrow> activityCache (snd (tryOutlookCalendar env now d dateStr current ?s1)))"
    by (cases force) (simp_all add: outlookBlock_def case_prod_unfold split: option.splits)
  show "cacheTTL (activityCache (snd (outlookBlock env now d dateStr force current s)))
     = cacheTTL (activityCache s)"
    "writable (activityCache (snd (outlookBlock env now d dateStr force current s)))
     = writable (activityCache s)"
    "gitlab (cache (activityCache (snd (outlookBlock env now d dateStr force current s))))
     = gitlab (cache (activityCache s))"
    "googleCalendar (cache (activityCache (snd (outlookBlock env now d dateStr force current s))))
     = googleCalendar (cache (activityCache s))"
    "key \<noteq> getDateKey d \<Longrightarrow>
     outlookCalendar (cache (activityCache (snd (outlookBlock env now d dateStr force current s)))) key
       = outlookCalendar (cache (activityCache s)) key"
    unfolding st
    by (simp_all add: tryOutlookCalendar_frame get_outlook_frame split: option.splits)
qed

lemma fetchCalendarEventsWithCache_result:
  "fst (fetchCalendarEventsWithCache env tz now dateStr goo out force s) =
     Inr (calendarOutcome now (cacheTTL (activityCache s))
            (googleCalendar (cache (activityCache s)) (getDateKey (parseDateStr tz dateStr)))
            (outlookCalendar (cache (activityCache s)) (getDateKey (parseDateStr tz dateStr)))
            (googleCalendar_getEventsForDate env dateStr)
            (outlookCalendar_getEventsForDate env dateStr) goo out force)"
proof -
  let ?d = "parseDateStr tz dateStr"
  let ?c = "activityCache s"
  let ?hit = "if goo \<and> \<not> force then fst (getGoogleCalendarEvents now ?d ?c) else None"
  let ?s1 = "if goo \<and> \<not> force then s\<lparr>activityCache := snd (getGoogleCalendarEvents now ?d ?c)\<rparr> else s"
  let ?cur = "if goo then fst (tryGoogleCalendar env now ?d dateStr [] ?s1) else []"
  let ?s2 = "if goo then snd (tryGoogleCalendar env now ?d dateStr [] ?s1) else ?s1"
  have unfold: "fst (fetchCalendarEventsWithCache env tz now dateStr goo out force s) =
      (case ?hit of
         Some cached \<Rightarrow> Inr (cached, True)
       | None \<Rightarrow> if length ?cur = 0 \<and> out then fst (outlookBlock env now ?d dateStr force ?cur ?s2)
                 else Inr (?cur, False))"
    by (cases "goo \<and> \<not> force"; cases goo)
       (simp_all add: fetchCalendarEventsWithCache_def Let_def case_prod_unfold
          split: option.splits)
  have ttl: "cacheTTL (activityCache ?s2) = cacheTTL ?c"
    by (simp add: tryGoogleCalendar_frame get_google_frame)
  have ol: "outlookCalendar (cache (activityCache ?s2)) = outlookCalendar (cache ?c)"
    by (simp add: tryGoogleCalendar_frame get_google_frame)
  show ?thesis
    unfolding unfold outlookBlock_result ttl ol
    by (auto simp: calendarOutcome_def get_results tryGoogleCalendar_result Let_def
        split: option.splits sum.splits)
qed

lemma fetchCalendarEventsWithCache_frame:
  "cacheTTL (activityCache (snd (fetchCalendarEventsWithCache env tz now dateStr goo out force s)))
     = cacheTTL (activityCache s)"
  "writable (activityCache (snd (fetchCalendarEventsWithCache env tz now dateStr goo out force s)))
     = writable (activityCache s)"
  "gitlab (cache (activityCache (snd (fetchCalendarEventsWithCache env tz now dateStr goo out force s))))
     = gitlab (cache (activityCache s))"
  "key \<noteq> getDateKey (parseDateStr tz dateStr) \<Longrightarrow>
     googleCalendar (cache (activityCache
         (snd (fetchCalendarEventsWithCache env tz now dateStr goo out force s)))) key
       = googleCalendar (cache (activityCache s)) key"
  "key \<noteq> getDateKey (parseDateStr tz dateStr) \<Longrightarrow>
     outlookCalendar (cache (activityCache
         (snd (fetchCalendarEventsWithCache env tz now dateStr goo out force s)))) key
       = outlookCalendar (cache (activityCache s)) key"
proof -
  let ?d = "parseDateStr tz dateStr"
  let ?c = "activityCache s"
  let ?hit = "if goo \<and> \<not> force then fst (getGoogleCalendarEvents now ?d ?c) else None"
  let ?s1 = "if goo \<and> \<not> force then s\<lparr>activityCache := snd (getGoogleCalendarEvents now ?d ?c)\<rparr> else s"
  let ?cur = "if goo then fst (tryGoogleCalendar env now ?d dateStr [] ?s1) else []"
  let ?s2 = "if goo then snd (tryGoogleCalendar env now ?d dateStr [] ?s1) else ?s1"
  have st: "activityCache (snd (fetchCalendarEventsWithCache env tz now dateStr goo out force s)) =
      (case ?hit of
         Some cached \<Rightarrow> activityCache ?s1
       | None \<Rightarrow> if length ?cur = 0 \<and> out
                 then activityCache (snd (outlookBlock env now ?d dateStr force ?cur ?s2))
                 else activityCache ?s2)"
    by (cases "goo \<and> \<not> force"; cases goo)
       (simp_all add: fetchCalendarEventsWithCache_def Let_def case_prod_unfold
          split: option.splits)
  show "cacheTTL (activityCache (snd (fetchCalendarEventsWithCache env tz now dateStr goo out force s)))
     = cacheTTL (activityCache s)"
    "writable (activityCache (snd (fetchCalendarEventsWithCache env tz now dateStr goo out force s)))
     = writable (activityCache s)"
    "gitlab (cache (activityCache (snd (fetchCalendarEventsWithCache env tz now dateStr goo out force s))))
     = gitlab (cache (activityCache s))"
    "key \<noteq> getDateKey (parseDateStr tz dateStr) \<Longrightarrow>
     googleCalendar (cache (activityCache
         (snd (fetchCalendarEventsWithCache env tz now dateStr goo out force s)))) key
       = googleCalendar (cache (activityCache s)) key"
    "key \<noteq> getDateKey (parseDateStr tz dateStr) \<Longrightarrow>
     outlookCalendar (cache (activityCache
         (snd (fetchCalendarEventsWithCache env tz now dateStr goo out force s)))) key
       = outlookCalendar (cache (activityCache s)) key"
    unfolding st
    by (simp_all add: outlookBlock_frame tryGoogleCalendar_frame get_google_frame
        split: option.splits)
qed
lemma freshOf_keepFresh [simp]: "freshOf now ttl (keepFresh now ttl e) = freshOf now ttl e"
  by (simp add: freshOf_def keepFresh_def split: option.splits)

section \<open>The orchestrator: claims\<close>

lemma cached_empty_google_returns_early:
  assumes "goo" "\<not> force"
    and "freshOf now (cacheTTL (activityCache s))
           (googleCalendar (cache (activityCache s)) (getDateKey (parseDateStr tz dateStr))) = Some []"
  shows "fst (fetchCalendarEventsWithCache env tz now dateStr goo out force s) = Inr ([], True)"
  using assms by (simp add: fetchCalendarEventsWithCache_result calendarOutcome_def)

text \<open>
  C2 fails on the code. With both calendars enabled and no forced refresh, the first
  fetch of a day finds no Google event, stores the empty list in the Google namespace,
  goes on to Outlook and returns its event. The next fetch of the same day finds the
  stored empty list, which the test \<open>if (cached)\<close> takes for a hit: it returns no
  event from the cache and never tries Outlook (no Outlook line in the log, no Outlook
  lookup counted).
\<close>

theorem cached_empty_primary_skips_secondary:
  "fst (fetchCalendarEventsWithCache sampleProviders (fixedOffset 0) 1000 ''2024-03-15'' True True
          False newServer)
     = Inr ([sampleEvent], False) \<and>
   progressLog sampleWarmServer =
     [Fetching GoogleCalendar ''2024-03-15'', FetchedEvents GoogleCalendar ''2024-03-15'' 0,
      Fetching OutlookCalendar ''2024-03-15'', FetchedEvents OutlookCalendar ''2024-03-15'' 1] \<and>
   fst (fetchCalendarEventsWithCache sampleProviders (fixedOffset 0) 2000 ''2024-03-15'' True True
          False sampleWarmServer) = Inr ([], True) \<and>
   progressLog (snd (fetchCalendarEventsWithCache sampleProviders (fixedOffset 0) 2000 ''2024-03-15''
          True True False sampleWarmServer))
     = progressLog sampleWarmServer @ [FromCache GoogleCalendar ''2024-03-15''] \<and>
   outlookHits (cacheStats (activityCache (snd (fetchCalendarEventsWithCache sampleProviders
          (fixedOffset 0) 2000 ''2024-03-15'' True True False sampleWarmServer))))
     = outlookHits (cacheStats (activityCache sampleWarmServer)) \<and>
   outlookMisses (cacheStats (activityCache (snd (fetchCalendarEventsWithCache sampleProviders
          (fixedOffset 0) 2000 ''2024-03-15'' True True False sampleWarmServer))))
     = outlookMisses (cacheStats (activityCache sampleWarmServer))"
  by code_simp

text \<open>
  C7 fails on the code. The key is the UTC day of the local midnight of \<open>d\<close>
  (\<open>toISOString\<close>), so east of Greenwich it is the day before \<open>d\<close>: one hour east, the
  payload fetched for 2024-03-15 is stored under 2024-03-14 and nothing is stored under
  2024-03-15, while the local day of the parsed date is 2024-03-15.
\<close>

theorem cache_key_is_utc_day:
  "strictDayKey ''2024-03-15'' \<and>
   localDateStr (fixedOffset 60) (parseDateStr (fixedOffset 60) ''2024-03-15'') = ''2024-03-15'' \<and>
   getDateKey (parseDateStr (fixedOffset 60) ''2024-03-15'') = ''2024-03-14'' \<and>
   gitlab (cache (activityCache (snd (fetchGitLabActivityWithCache sampleProviders (fixedOffset 60)
      1000 ''2024-03-15'' False newServer)))) ''2024-03-15'' = None \<and>
   map_option timestamp (gitlab (cache (activityCache (snd (fetchGitLabActivityWithCache
      sampleProviders (fixedOffset 60) 1000 ''2024-03-15'' False newServer)))) ''2024-03-14'')
     = Some 1000"
  by code_simp

end
